theory Spec2Isabelle
  imports Main "HOL-Library.Product_Lexorder"
begin

section \<open>Trace-based log correlation of \<open>log_analyzer.py\<close>\<close>

text \<open>
  The development embeds the trace-correlation part of class \<open>LogAnalyzer\<close>:
  \<open>_extract_timestamp\<close>, \<open>_extract_log_level\<close>, \<open>_parse_trace_logs\<close>,
  \<open>_parse_trace_logs_from_directory\<close> and \<open>_sort_logs_by_timestamp\<close>.

  A Python \<open>str\<close> is modelled as a \<open>string\<close>. The character classes below are the
  ASCII part of Python's: the embedding is exact for log lines and trace identifiers made
  of ASCII characters (for other characters Python's \<open>re.IGNORECASE\<close>, \<open>\s\<close>, \<open>\d\<close>
  and \<open>str.strip\<close> know further case pairs, blanks and digits).
\<close>

subsection \<open>Characters and the string methods the code calls\<close>

text \<open>Whitespace of \<open>str.strip()\<close> and of the regular expression \<open>\s\<close>: tab, line feed,
  vertical tab, form feed, carriage return, the separators 0x1C to 0x1F, and space.\<close>

definition is_space :: "char \<Rightarrow> bool" where
  "is_space c = (c \<in> set [CHR 0x09, CHR 0x0A, CHR 0x0B, CHR 0x0C, CHR 0x0D,
                           CHR 0x1C, CHR 0x1D, CHR 0x1E, CHR 0x1F, CHR 0x20])"

text \<open>The regular expression \<open>\d\<close>, and the value of a digit.\<close>

definition is_digit :: "char \<Rightarrow> bool" where
  "is_digit c = (c \<in> set ''0123456789'')"

definition digit_val :: "char \<Rightarrow> nat" where
  "digit_val c = (case map_of (zip ''0123456789'' [0, 1, 2, 3, 4, 5, 6, 7, 8, 9]) c of
                    Some n \<Rightarrow> n | None \<Rightarrow> 0)"

text \<open>\<open>int(s)\<close> for a string of decimal digits.\<close>

definition int_of_digits :: "string \<Rightarrow> nat" where
  "int_of_digits s = foldl (\<lambda>n c. 10 * n + digit_val c) 0 s"

text \<open>Case folding of \<open>re.IGNORECASE\<close>.\<close>

definition lower_char :: "char \<Rightarrow> char" where
  "lower_char c = (case map_of (zip ''ABCDEFGHIJKLMNOPQRSTUVWXYZ''
                                    ''abcdefghijklmnopqrstuvwxyz'') c of
                     Some d \<Rightarrow> d | None \<Rightarrow> c)"

text \<open>\<open>s.startswith(p)\<close>, \<open>p in s\<close> and \<open>s.strip()\<close>.\<close>

definition startswith :: "string \<Rightarrow> string \<Rightarrow> bool" where
  "startswith s p = (take (length p) s = p)"

fun contains :: "string \<Rightarrow> string \<Rightarrow> bool" where
  "contains [] p = (p = [])"
| "contains (c # cs) p = (startswith (c # cs) p \<or> contains cs p)"

definition strip :: "string \<Rightarrow> string" where
  "strip s = rev (dropWhile is_space (rev (dropWhile is_space s)))"

text \<open>\<open>os.path.basename\<close> (POSIX): what follows the last slash.\<close>

definition basename :: "string \<Rightarrow> string" where
  "basename p = rev (takeWhile (\<lambda>c. c \<noteq> CHR ''/'') (rev p))"

subsection \<open>The regular expressions of the code\<close>

text \<open>
  The patterns of \<open>_extract_timestamp\<close> and \<open>_parse_trace_logs\<close> are sequences of these
  items: a literal character, a character class such as \<open>[=:]\<close>, \<open>\d\<close>, \<open>\s*\<close> and
  \<open>\s+\<close>. \<open>re_match_at ic p s\<close> is the text that \<open>p\<close> matches at the start of \<open>s\<close>
  (the repetitions are greedy and backtrack, as in Python); \<open>ic\<close> is the flag
  \<open>re.IGNORECASE\<close>. \<open>re_search\<close> is \<open>re.search\<close>: the match at the leftmost position
  that has one.
\<close>

datatype re_item = Lit char | OneOf string | Digit | SpaceStar | SpacePlus

definition char_eq :: "bool \<Rightarrow> char \<Rightarrow> char \<Rightarrow> bool" where
  "char_eq ic c d = (if ic then lower_char c = lower_char d else c = d)"

fun re_match_at :: "bool \<Rightarrow> re_item list \<Rightarrow> string \<Rightarrow> string option" where
  "re_match_at ic [] s = Some []"
| "re_match_at ic (Lit c # p) [] = None"
| "re_match_at ic (Lit c # p) (d # ds) =
     (if char_eq ic c d then map_option ((#) d) (re_match_at ic p ds) else None)"
| "re_match_at ic (OneOf cs # p) [] = None"
| "re_match_at ic (OneOf cs # p) (d # ds) =
     (if list_ex (\<lambda>c. char_eq ic c d) cs then map_option ((#) d) (re_match_at ic p ds)
      else None)"
| "re_match_at ic (Digit # p) [] = None"
| "re_match_at ic (Digit # p) (d # ds) =
     (if is_digit d then map_option ((#) d) (re_match_at ic p ds) else None)"
| "re_match_at ic (SpaceStar # p) [] = re_match_at ic p []"
| "re_match_at ic (SpaceStar # p) (d # ds) =
     (if is_space d then
        (case re_match_at ic (SpaceStar # p) ds of
           Some m \<Rightarrow> Some (d # m)
         | None \<Rightarrow> re_match_at ic p (d # ds))
      else re_match_at ic p (d # ds))"
| "re_match_at ic (SpacePlus # p) [] = None"
| "re_match_at ic (SpacePlus # p) (d # ds) =
     (if is_space d then map_option ((#) d) (re_match_at ic (SpaceStar # p) ds) else None)"

fun re_search :: "bool \<Rightarrow> re_item list \<Rightarrow> string \<Rightarrow> string option" where
  "re_search ic p [] = re_match_at ic p []"
| "re_search ic p (c # cs) =
     (case re_match_at ic p (c # cs) of
        Some m \<Rightarrow> Some m
      | None \<Rightarrow> re_search ic p cs)"

text \<open>\<open>re.escape(s)\<close>: the pattern that matches the characters of \<open>s\<close> literally.\<close>

definition re_escape :: "string \<Rightarrow> re_item list" where
  "re_escape s = map Lit s"

subsection \<open>\<open>_extract_timestamp\<close> and \<open>_extract_log_level\<close>\<close>

text \<open>The three patterns, in the order of the source:
  \<open>\d{4}-\d{2}-\d{2}\s+\d{2}:\d{2}:\d{2}\<close>,
  \<open>\d{4}-\d{2}-\d{2}T\d{2}:\d{2}:\d{2}\<close> and
  \<open>\d{2}/\d{2}/\d{4}\s+\d{2}:\d{2}:\d{2}\<close>.\<close>

definition hms_pattern :: "re_item list" where
  "hms_pattern = [Digit, Digit, Lit CHR '':'', Digit, Digit, Lit CHR '':'', Digit, Digit]"

definition timestamp_patterns :: "re_item list list" where
  "timestamp_patterns =
    [ [Digit, Digit, Digit, Digit, Lit CHR ''-'', Digit, Digit, Lit CHR ''-'', Digit, Digit,
       SpacePlus] @ hms_pattern,
      [Digit, Digit, Digit, Digit, Lit CHR ''-'', Digit, Digit, Lit CHR ''-'', Digit, Digit,
       Lit CHR ''T''] @ hms_pattern,
      [Digit, Digit, Lit CHR ''/'', Digit, Digit, Lit CHR ''/'', Digit, Digit, Digit, Digit,
       SpacePlus] @ hms_pattern ]"

text \<open>The loop \<open>for pattern in patterns\<close>: the first pattern found wins.\<close>

fun first_match :: "re_item list list \<Rightarrow> string \<Rightarrow> string option" where
  "first_match [] line = None"
| "first_match (p # ps) line =
     (case re_search False p line of
        Some m \<Rightarrow> Some m
      | None \<Rightarrow> first_match ps line)"

definition extract_timestamp :: "string \<Rightarrow> string" where
  "extract_timestamp line =
     (case first_match timestamp_patterns line of
        Some m \<Rightarrow> m
      | None \<Rightarrow> ''Unknown'')"

datatype log_level = ERROR | WARN | INFO | DEBUG | UNKNOWN

definition extract_log_level :: "string \<Rightarrow> log_level" where
  "extract_log_level line =
     (if contains line ''ERROR'' then ERROR
      else if contains line ''WARN'' then WARN
      else if contains line ''INFO'' then INFO
      else if contains line ''DEBUG'' then DEBUG
      else UNKNOWN)"

subsection \<open>\<open>_parse_trace_logs\<close>\<close>

text \<open>A log entry is the dictionary the source builds; \<open>source_file\<close> is the key that
  only the directory scan adds.\<close>

record log_entry =
  line_number :: nat
  timestamp :: string
  level :: log_level
  content :: string
  stack_trace :: "string list"
  source_file :: "string option"

text \<open>The six patterns, in the order of the source; all are searched with
  \<open>re.IGNORECASE\<close>.\<close>

definition trace_patterns :: "string \<Rightarrow> re_item list list" where
  "trace_patterns trace_id =
    [ map Lit ''traceId'' @ [OneOf ''=:'', SpaceStar] @ re_escape trace_id,
      map Lit ''trace_id'' @ [OneOf ''=:'', SpaceStar] @ re_escape trace_id,
      [Lit CHR ''[''] @ re_escape trace_id @ [Lit CHR '']''],
      map Lit ''requestId'' @ [OneOf ''=:'', SpaceStar] @ re_escape trace_id,
      map Lit ''request_id'' @ [OneOf ''=:'', SpaceStar] @ re_escape trace_id,
      re_escape trace_id ]"

definition matches_trace :: "string \<Rightarrow> string \<Rightarrow> bool" where
  "matches_trace trace_id line =
     list_ex (\<lambda>p. re_search True p line \<noteq> None) (trace_patterns trace_id)"

text \<open>The test of the inner loop: the line starts with a tab, four spaces or \<open>at \<close>.\<close>

definition is_continuation :: "string \<Rightarrow> bool" where
  "is_continuation line =
     (startswith line [CHR 0x09] \<or> startswith line ''    '' \<or> startswith line ''at '')"

text \<open>The inner \<open>while\<close> loop: from index \<open>i\<close> it appends the stripped continuation lines
  to the stack trace and returns the index of the first line that is none.\<close>

function collect_stack :: "string list \<Rightarrow> nat \<Rightarrow> string list \<Rightarrow> nat \<times> string list" where
  "collect_stack lines i st =
     (if i < length lines \<and> is_continuation (lines ! i)
      then collect_stack lines (i + 1) (st @ [strip (lines ! i)])
      else (i, st))"
  by pat_completeness auto
termination
  by (relation "measure (\<lambda>(lines, i, st). length lines - i)") auto

declare collect_stack.simps [simp del]

text \<open>The local variables of \<open>_parse_trace_logs\<close> that the outer loop updates.\<close>

record scan_state =
  logs_acc :: "log_entry list"
  errors_acc :: nat
  warns_acc :: nat
  infos_acc :: nat

definition new_entry :: "nat \<Rightarrow> string \<Rightarrow> log_entry" where
  "new_entry i line =
     \<lparr> line_number = i + 1,
       timestamp = extract_timestamp line,
       level = extract_log_level line,
       content = strip line,
       stack_trace = [],
       source_file = None \<rparr>"

definition count_level :: "log_level \<Rightarrow> scan_state \<Rightarrow> scan_state" where
  "count_level l s =
     (if l = ERROR then s\<lparr>errors_acc := errors_acc s + 1\<rparr>
      else if l = WARN then s\<lparr>warns_acc := warns_acc s + 1\<rparr>
      else if l = INFO then s\<lparr>infos_acc := infos_acc s + 1\<rparr>
      else s)"

lemma collect_stack_index:
  "i \<le> fst (collect_stack lines i st) \<and> fst (collect_stack lines i st) \<le> max i (length lines)"
proof (induction lines i st rule: collect_stack.induct)
  case (1 lines i st)
  show ?case
  proof (cases "i < length lines \<and> is_continuation (lines ! i)")
    case True
    with "1.IH" show ?thesis
      by (subst (1 2) collect_stack.simps) auto
  next
    case False
    then show ?thesis
      by (subst (1 2) collect_stack.simps) auto
  qed
qed

text \<open>The outer \<open>while i < len(lines)\<close> loop. After an ERROR entry the source sets
  \<open>i\<close> to the index after the stack trace, minus one, and then adds one as for every
  line.\<close>

function parse_loop :: "string \<Rightarrow> string list \<Rightarrow> nat \<Rightarrow> scan_state \<Rightarrow> scan_state" where
  "parse_loop trace_id lines i s =
     (if i < length lines then
        (let line = lines ! i in
         if matches_trace trace_id line then
           (let log_entry = new_entry i line;
                lvl = level log_entry;
                s1 = count_level lvl s
            in if lvl = ERROR then
                 (let (j, st) = collect_stack lines (i + 1) []
                  in parse_loop trace_id lines (j - 1 + 1)
                       (s1\<lparr>logs_acc := logs_acc s1 @ [log_entry\<lparr>stack_trace := st\<rparr>]\<rparr>))
               else parse_loop trace_id lines (i + 1)
                      (s1\<lparr>logs_acc := logs_acc s1 @ [log_entry]\<rparr>))
         else parse_loop trace_id lines (i + 1) s)
      else s)"
  by pat_completeness auto
termination
proof (relation "measure (\<lambda>(trace_id, lines, i, s). length lines - i)", goal_cases)
  case 1
  show ?case by simp
next
  case (2 trace_id lines i s line log_entry lvl s1 x j st)
  have "i + 1 \<le> fst (collect_stack lines (i + 1) [])"
    using collect_stack_index by blast
  moreover have "fst (collect_stack lines (i + 1) []) = j"
    using 2 by (metis fst_conv)
  ultimately show ?case
    using 2 by simp
next
  case 3
  then show ?case by auto
next
  case 4
  then show ?case by auto
qed

declare parse_loop.simps [simp del]

text \<open>Reading the file: \<open>open\<close> and \<open>readlines\<close> either give the lines (each with
  its line terminator) or raise; \<open>None\<close> is the exception, which the source catches.
  What the source prints on the console (the failure message, the progress of a
  directory scan) is no part of the value it returns and is left out.\<close>

type_synonym filesystem = "string \<Rightarrow> string list option"

text \<open>The dictionary that both entry points return. The value of the key \<open>file\<close> (here \<open>file_desc\<close>) is the path,
  or for a directory scan the text that gives the number of files scanned; the key
  \<open>source_files\<close> exists only after a directory scan.\<close>

datatype descriptor = FilePath string | DirectoryScan nat

record trace_result =
  trace_id :: string
  file_desc :: descriptor
  source_files :: "string list option"
  total_logs :: nat
  error_count :: nat
  warn_count :: nat
  info_count :: nat
  logs :: "log_entry list"

definition init_state :: scan_state where
  "init_state = \<lparr> logs_acc = [], errors_acc = 0, warns_acc = 0, infos_acc = 0 \<rparr>"

definition parse_trace_logs :: "filesystem \<Rightarrow> string \<Rightarrow> string \<Rightarrow> trace_result" where
  "parse_trace_logs fs log_file tid =
     (case fs log_file of
        Some lines \<Rightarrow>
          (let s = parse_loop tid lines 0 init_state
           in \<lparr> trace_id = tid,
                file_desc = FilePath log_file,
                source_files = None,
                total_logs = length (logs_acc s),
                error_count = errors_acc s,
                warn_count = warns_acc s,
                info_count = infos_acc s,
                logs = logs_acc s \<rparr>)
      | None \<Rightarrow>
          \<lparr> trace_id = tid,
            file_desc = FilePath log_file,
            source_files = None,
            total_logs = 0,
            error_count = 0,
            warn_count = 0,
            info_count = 0,
            logs = [] \<rparr>)"

subsection \<open>\<open>datetime.strptime\<close> for the formats of \<open>parse_timestamp\<close>\<close>

text \<open>
  \<open>strptime\<close> turns the format into a regular expression, matches it at the start of
  the text, and raises \<open>ValueError\<close> when it does not match, when text remains after the
  match, or when the fields are no date and time. The directives the source uses, with
  the expression of each:
  \<open>%Y\<close> \<open>\d\d\d\d\<close>; \<open>%m\<close> \<open>1[0-2]|0[1-9]|[1-9]\<close>;
  \<open>%d\<close> \<open>3[0-1]|[1-2]\d|0[1-9]|[1-9]| [1-9]\<close>; \<open>%H\<close> \<open>2[0-3]|[0-1]\d|\d\<close>;
  \<open>%M\<close> \<open>[0-5]\d|\d\<close>; \<open>%S\<close> \<open>6[0-1]|[0-5]\d|\d\<close>; \<open>%f\<close> \<open>[0-9]{1,6}\<close>;
  a blank of the format is \<open>\s+\<close>; any other character stands for itself, ignoring
  case.
\<close>

datatype directive = DY | Dm | Dd | DH | DM | DS | Df | DLit char | DSpace

text \<open>One character of each class in turn, as \<open>[0-1]\d\<close>: the match and the rest, or
  nothing.\<close>

fun take_classes :: "string list \<Rightarrow> string \<Rightarrow> (string \<times> string) list" where
  "take_classes [] s = [([], s)]"
| "take_classes (cl # cls) [] = []"
| "take_classes (cl # cls) (c # cs) =
     (if c \<in> set cl then map (\<lambda>(m, r). (c # m, r)) (take_classes cls cs) else [])"

text \<open>Between one and \<open>n\<close> characters that satisfy \<open>P\<close>: every way to match, the longest
  first, as the greedy repetition tries them.\<close>

fun rep_alts :: "nat \<Rightarrow> (char \<Rightarrow> bool) \<Rightarrow> string \<Rightarrow> (string \<times> string) list" where
  "rep_alts 0 P s = []"
| "rep_alts (Suc n) P [] = []"
| "rep_alts (Suc n) P (c # cs) =
     (if P c then map (\<lambda>(m, r). (c # m, r)) (rep_alts n P cs) @ [([c], cs)] else [])"

definition digits19 :: string where
  "digits19 = ''123456789''"

definition digits09 :: string where
  "digits09 = ''0123456789''"

text \<open>The alternatives of a directive at the start of \<open>s\<close>, in the order in which the
  regular expression tries them.\<close>

fun directive_alts :: "directive \<Rightarrow> string \<Rightarrow> (string \<times> string) list" where
  "directive_alts DY s = take_classes [digits09, digits09, digits09, digits09] s"
| "directive_alts Dm s =
     take_classes [''1'', ''012''] s @ take_classes [''0'', digits19] s
       @ take_classes [digits19] s"
| "directive_alts Dd s =
     take_classes [''3'', ''01''] s @ take_classes [''12'', digits09] s
       @ take_classes [''0'', digits19] s @ take_classes [digits19] s
       @ take_classes ['' '', digits19] s"
| "directive_alts DH s =
     take_classes [''2'', ''0123''] s @ take_classes [''01'', digits09] s
       @ take_classes [digits09] s"
| "directive_alts DM s =
     take_classes [''012345'', digits09] s @ take_classes [digits09] s"
| "directive_alts DS s =
     take_classes [''6'', ''01''] s @ take_classes [''012345'', digits09] s
       @ take_classes [digits09] s"
| "directive_alts Df s = rep_alts 6 is_digit s"
| "directive_alts (DLit c) [] = []"
| "directive_alts (DLit c) (d # ds) = (if char_eq True c d then [([d], ds)] else [])"
| "directive_alts DSpace s = rep_alts (length s) is_space s"

fun first_some :: "('a \<Rightarrow> 'b option) \<Rightarrow> 'a list \<Rightarrow> 'b option" where
  "first_some f [] = None"
| "first_some f (x # xs) = (case f x of Some y \<Rightarrow> Some y | None \<Rightarrow> first_some f xs)"

text \<open>The first way to match the whole format at the start of \<open>s\<close>, with backtracking:
  the text of every directive, and what remains of \<open>s\<close>.\<close>

fun fmt_match :: "directive list \<Rightarrow> string \<Rightarrow> ((directive \<times> string) list \<times> string) option" where
  "fmt_match [] s = Some ([], s)"
| "fmt_match (d # ds) s =
     first_some (\<lambda>(m, r). map_option (\<lambda>(caps, rest). ((d, m) # caps, rest)) (fmt_match ds r))
       (directive_alts d s)"

text \<open>A naive \<open>datetime\<close>: year, month, day, hour, minute, second, microsecond. Python
  compares two of them field by field in this order, which is the lexicographic order of
  the tuples.\<close>

type_synonym datetime = "nat \<times> nat \<times> nat \<times> nat \<times> nat \<times> nat \<times> nat"

definition datetime_min :: datetime where
  "datetime_min = (1, 1, 1, 0, 0, 0, 0)"

definition is_leap :: "nat \<Rightarrow> bool" where
  "is_leap y = (y mod 4 = 0 \<and> (y mod 100 \<noteq> 0 \<or> y mod 400 = 0))"

definition days_in_month :: "nat \<Rightarrow> nat \<Rightarrow> nat" where
  "days_in_month y m =
     (if m = 2 then (if is_leap y then 29 else 28)
      else if m \<in> set [4, 6, 9, 11] then 30 else 31)"

text \<open>The number that a directive captured (\<open>int\<close> of its text, where the blank of
  \<open>%d\<close> counts for nothing), or the default of \<open>strptime\<close>.\<close>

definition field :: "(directive \<times> string) list \<Rightarrow> directive \<Rightarrow> nat \<Rightarrow> nat" where
  "field caps d dflt = (case map_of caps d of Some m \<Rightarrow> int_of_digits m | None \<Rightarrow> dflt)"

definition fraction :: "(directive \<times> string) list \<Rightarrow> nat" where
  "fraction caps =
     (case map_of caps Df of
        Some m \<Rightarrow> int_of_digits (m @ replicate (6 - length m) CHR ''0'')
      | None \<Rightarrow> 0)"

definition strptime :: "string \<Rightarrow> directive list \<Rightarrow> datetime option" where
  "strptime s fmt =
     (case fmt_match fmt s of
        None \<Rightarrow> None
      | Some (caps, rest) \<Rightarrow>
          if rest \<noteq> [] then None
          else
            (let year = field caps DY 1900; month = field caps Dm 1; day = field caps Dd 1;
                 hour = field caps DH 0; minute = field caps DM 0; second = field caps DS 0
             in if 1 \<le> year \<and> day \<le> days_in_month year month \<and> second \<le> 59
                then Some (year, month, day, hour, minute, second, fraction caps)
                else None))"

subsection \<open>\<open>_sort_logs_by_timestamp\<close>\<close>

text \<open>The formats \<open>%Y-%m-%d %H:%M:%S\<close>, \<open>%Y-%m-%d %H:%M:%S.%f\<close>,
  \<open>%Y-%m-%dT%H:%M:%S\<close>, \<open>%Y-%m-%dT%H:%M:%S.%f\<close> and \<open>%d/%m/%Y %H:%M:%S\<close>.\<close>

definition hms_format :: "directive list" where
  "hms_format = [DH, DLit CHR '':'', DM, DLit CHR '':'', DS]"

definition formats :: "directive list list" where
  "formats =
    [ [DY, DLit CHR ''-'', Dm, DLit CHR ''-'', Dd, DSpace] @ hms_format,
      [DY, DLit CHR ''-'', Dm, DLit CHR ''-'', Dd, DSpace] @ hms_format @ [DLit CHR ''.'', Df],
      [DY, DLit CHR ''-'', Dm, DLit CHR ''-'', Dd, DLit CHR ''T''] @ hms_format,
      [DY, DLit CHR ''-'', Dm, DLit CHR ''-'', Dd, DLit CHR ''T''] @ hms_format
        @ [DLit CHR ''.'', Df],
      [Dd, DLit CHR ''/'', Dm, DLit CHR ''/'', DY, DSpace] @ hms_format ]"

text \<open>The text handed to \<open>strptime\<close>: without what follows the first dot, when the
  timestamp has a dot and no \<open>T\<close>.\<close>

definition ts_text :: "string \<Rightarrow> string" where
  "ts_text t =
     (if CHR ''.'' \<in> set t \<and> CHR ''T'' \<notin> set t
      then takeWhile (\<lambda>c. c \<noteq> CHR ''.'') t
      else t)"

text \<open>The loop \<open>for fmt in formats\<close>: the first format that parses returns; \<open>None\<close>
  when every format raised \<open>ValueError\<close>.\<close>

definition try_formats :: "string \<Rightarrow> datetime option" where
  "try_formats t = first_some (\<lambda>fmt. strptime (ts_text t) fmt) formats"

definition parse_timestamp :: "log_entry \<Rightarrow> datetime" where
  "parse_timestamp log =
     (if timestamp log = ''Unknown'' then datetime_min
      else case try_formats (timestamp log) of
             Some d \<Rightarrow> d
           | None \<Rightarrow> datetime_min)"

text \<open>\<open>sorted(logs, key=parse_timestamp)\<close> is a stable sort, and \<open>sort_key\<close> is the
  stable sort of the library. The key is a \<open>datetime\<close> for every entry, so the comparison
  cannot raise and the handler that returns the list unsorted is never entered.\<close>

definition sort_logs_by_timestamp :: "log_entry list \<Rightarrow> log_entry list" where
  "sort_logs_by_timestamp ls = sort_key parse_timestamp ls"

subsection \<open>\<open>_parse_trace_logs_from_directory\<close>\<close>

record dir_state =
  all_logs :: "log_entry list"
  dir_errors :: nat
  dir_warns :: nat
  dir_infos :: nat
  dir_sources :: "string list"

definition init_dir :: dir_state where
  "init_dir = \<lparr> all_logs = [], dir_errors = 0, dir_warns = 0, dir_infos = 0, dir_sources = [] \<rparr>"

text \<open>The body of \<open>for log_file in log_files\<close>.\<close>

definition scan_file :: "filesystem \<Rightarrow> string \<Rightarrow> dir_state \<Rightarrow> string \<Rightarrow> dir_state" where
  "scan_file fs tid acc log_file =
     (let file_logs = parse_trace_logs fs log_file tid
      in if logs file_logs \<noteq> [] then
           acc\<lparr> dir_sources := dir_sources acc @ [log_file],
                all_logs := all_logs acc
                  @ map (\<lambda>log. log\<lparr>source_file := Some (basename log_file)\<rparr>) (logs file_logs),
                dir_errors := dir_errors acc + error_count file_logs,
                dir_warns := dir_warns acc + warn_count file_logs,
                dir_infos := dir_infos acc + info_count file_logs \<rparr>
         else acc)"

definition parse_trace_logs_from_directory ::
  "filesystem \<Rightarrow> string list \<Rightarrow> string \<Rightarrow> trace_result" where
  "parse_trace_logs_from_directory fs log_files tid =
     (let acc = foldl (scan_file fs tid) init_dir log_files;
          sorted_logs = sort_logs_by_timestamp (all_logs acc)
      in \<lparr> trace_id = tid,
           file_desc = DirectoryScan (length log_files),
           source_files = Some (dir_sources acc),
           total_logs = length sorted_logs,
           error_count = dir_errors acc,
           warn_count = dir_warns acc,
           info_count = dir_infos acc,
           logs = sorted_logs \<rparr>)"

subsection \<open>Notions used to state and prove the properties\<close>

text \<open>One pass of the outer loop appends an entry and counts its level.\<close>

definition add_entry :: "log_entry \<Rightarrow> scan_state \<Rightarrow> scan_state" where
  "add_entry e s = (count_level (level e) s)\<lparr>logs_acc := logs_acc (count_level (level e) s) @ [e]\<rparr>"

text \<open>The stack trace that the inner loop collects after line \<open>i\<close>.\<close>

definition stack_of :: "string list \<Rightarrow> nat \<Rightarrow> string list" where
  "stack_of lines i = map strip (takeWhile is_continuation (drop (i + 1) lines))"

text \<open>An entry of the result is the entry of its line: the line matches, and every
  field is computed from the line (the stack trace from the lines after it).\<close>

definition entry_at :: "string \<Rightarrow> string list \<Rightarrow> log_entry \<Rightarrow> bool" where
  "entry_at tid lines e =
     (1 \<le> line_number e \<and> line_number e \<le> length lines \<and>
      matches_trace tid (lines ! (line_number e - 1)) \<and>
      e = (new_entry (line_number e - 1) (lines ! (line_number e - 1)))
            \<lparr>stack_trace :=
               (if extract_log_level (lines ! (line_number e - 1)) = ERROR
                then stack_of lines (line_number e - 1) else [])\<rparr>)"

text \<open>The number of entries of a level.\<close>

definition count_of :: "log_level \<Rightarrow> log_entry list \<Rightarrow> nat" where
  "count_of l es = length (filter (\<lambda>e. level e = l) es)"

text \<open>The entries of one file with their \<open>source_file\<close> set, as the scan appends
  them.\<close>

definition tagged :: "filesystem \<Rightarrow> string \<Rightarrow> string \<Rightarrow> log_entry list" where
  "tagged fs tid log_file =
     map (\<lambda>log. log\<lparr>source_file := Some (basename log_file)\<rparr>)
       (logs (parse_trace_logs fs log_file tid))"

text \<open>The counts of a result agree with its entries: the ERROR, WARN and INFO counts are
  the numbers of entries of these levels, and \<open>total_logs\<close> is the number of entries.\<close>

definition counts_agree :: "trace_result \<Rightarrow> bool" where
  "counts_agree r =
     (error_count r = length (filter (\<lambda>e. level e = ERROR) (logs r)) \<and>
      warn_count r = length (filter (\<lambda>e. level e = WARN) (logs r)) \<and>
      info_count r = length (filter (\<lambda>e. level e = INFO) (logs r)) \<and>
      total_logs r = length (logs r))"

text \<open>The optional parsed timestamp of the specification (\<open>timestampParsed\<close>), in the
  words of the specification: the point in time that a known format resolves, absent
  when the raw timestamp is \<open>Unknown\<close> or no format matches. The source has no such
  field: \<open>parse_timestamp\<close> computes the value when it sorts, and returns
  \<open>datetime.min\<close> where it is absent.\<close>

definition timestamp_parsed :: "log_entry \<Rightarrow> datetime option" where
  "timestamp_parsed log =
     (if timestamp log = ''Unknown'' then None else try_formats (timestamp log))"

text \<open>A case-insensitive occurrence of \<open>p\<close> in \<open>s\<close>.\<close>

definition contains_ci :: "string \<Rightarrow> string \<Rightarrow> bool" where
  "contains_ci s p = contains (map lower_char s) (map lower_char p)"

text \<open>The line matches one of the five delimited patterns, the patterns before the raw
  identifier.\<close>

definition delimited_match :: "string \<Rightarrow> string \<Rightarrow> bool" where
  "delimited_match tid line =
     list_ex (\<lambda>p. re_search True p line \<noteq> None) (butlast (trace_patterns tid))"

subsection \<open>Example inputs\<close>

text \<open>The source of the scenario of the specification, as \<open>readlines\<close> returns it.\<close>

definition scenario_lines :: "string list" where
  "scenario_lines =
    [ ''2024-01-01 10:00:00 INFO [req-42] start'' @ [CHR 0x0A],
      ''2024-01-01 10:00:05 ERROR [req-42] boom'' @ [CHR 0x0A],
      [CHR 0x09] @ ''at com.foo.Bar.baz'' @ [CHR 0x0A],
      ''2024-01-01 09:59:59 WARN [req-42] before'' @ [CHR 0x0A] ]"

definition scenario_fs :: filesystem where
  "scenario_fs = (\<lambda>p. if p = ''logs/app.log'' then Some scenario_lines else None)"

text \<open>A second source: a line whose level is written in lower case, a WARN line followed
  by an indented line that names the identifier, and a line of another request.\<close>

definition worker_lines :: "string list" where
  "worker_lines =
    [ ''2024-01-01 10:00:02 DEBUG requestId=req-42 step'' @ [CHR 0x0A],
      ''error [REQ-42] lowercase level'' @ [CHR 0x0A],
      ''2024-01-01 10:00:03 WARN [req-42] slow call'' @ [CHR 0x0A],
      ''    retry for [req-42] scheduled'' @ [CHR 0x0A],
      ''2024-01-01 10:00:04 INFO [req-7] other request'' @ [CHR 0x0A] ]"

text \<open>A directory with the two sources and a file that cannot be read.\<close>

definition service_fs :: filesystem where
  "service_fs =
     (\<lambda>p. if p = ''svc/app.log'' then Some scenario_lines
          else if p = ''svc/worker.log'' then Some worker_lines
          else None)"

text \<open>A line that names the longer identifier \<open>req-429\<close> only.\<close>

definition orders_line :: string where
  "orders_line = ''2024-01-01 10:00:06 INFO GET /orders req-429 done'' @ [CHR 0x0A]"

definition orders_fs :: filesystem where
  "orders_fs = (\<lambda>p. if p = ''orders.log'' then Some [orders_line] else None)"

text \<open>A line whose timestamp has the shape of the first pattern and names no month.\<close>

definition thirteen_line :: string where
  "thirteen_line = ''2024-13-01 10:00:00 INFO [req-42] month thirteen'' @ [CHR 0x0A]"

text \<open>A source whose first line carries the first instant that a \<open>datetime\<close> can
  hold, and whose second line carries no timestamp.\<close>

definition epoch_lines :: "string list" where
  "epoch_lines =
    [ ''0001-01-01 00:00:00 INFO [req-42] first'' @ [CHR 0x0A],
      ''INFO [req-42] no timestamp'' @ [CHR 0x0A] ]"

definition epoch_fs :: filesystem where
  "epoch_fs = (\<lambda>p. if p = ''epoch.log'' then Some epoch_lines else None)"

section \<open>The string methods\<close>

lemma startswith_iff: "startswith s p \<longleftrightarrow> (\<exists>b. s = p @ b)"
  unfolding startswith_def
  by (metis append_eq_conv_conj append_take_drop_id)

lemma contains_iff: "contains s p \<longleftrightarrow> (\<exists>a b. s = a @ p @ b)"
proof (induction s)
  case Nil
  show ?case by auto
next
  case (Cons c cs)
  show ?case
  proof
    assume "contains (c # cs) p"
    then consider "startswith (c # cs) p" | "contains cs p" by auto
    then show "\<exists>a b. c # cs = a @ p @ b"
    proof cases
      case 1
      then obtain b where "c # cs = p @ b" by (auto simp: startswith_iff)
      then have "c # cs = [] @ p @ b" by simp
      then show ?thesis by blast
    next
      case 2
      with Cons.IH obtain a b where "cs = a @ p @ b" by blast
      then have "c # cs = (c # a) @ p @ b" by simp
      then show ?thesis by blast
    qed
  next
    assume "\<exists>a b. c # cs = a @ p @ b"
    then obtain a b where ab: "c # cs = a @ p @ b" by blast
    show "contains (c # cs) p"
    proof (cases a)
      case Nil
      with ab have "startswith (c # cs) p" by (auto simp: startswith_iff)
      then show ?thesis by simp
    next
      case (Cons x a')
      with ab have "cs = a' @ p @ b" by simp
      with Cons.IH have "contains cs p" by blast
      then show ?thesis by simp
    qed
  qed
qed

section \<open>The match test is a case-insensitive substring test\<close>

lemma match_lits_iff:
  "re_match_at True (map Lit p) s \<noteq> None
     \<longleftrightarrow> startswith (map lower_char s) (map lower_char p)"
proof (induction p arbitrary: s)
  case Nil
  show ?case by (simp add: startswith_def)
next
  case (Cons c p)
  show ?case
  proof (cases s)
    case Nil
    then show ?thesis by (simp add: startswith_def)
  next
    case (Cons d ds)
    with Cons.IH [of ds] show ?thesis
      by (auto simp: startswith_def char_eq_def)
  qed
qed

lemma re_search_iff:
  "re_search ic p s \<noteq> None \<longleftrightarrow> (\<exists>k\<le>length s. re_match_at ic p (drop k s) \<noteq> None)"
proof (induction s)
  case Nil
  show ?case by simp
next
  case (Cons c cs)
  show ?case
  proof
    assume "re_search ic p (c # cs) \<noteq> None"
    then consider "re_match_at ic p (c # cs) \<noteq> None" | "re_search ic p cs \<noteq> None"
      by (auto split: option.splits)
    then show "\<exists>k\<le>length (c # cs). re_match_at ic p (drop k (c # cs)) \<noteq> None"
    proof cases
      case 1
      then have "re_match_at ic p (drop 0 (c # cs)) \<noteq> None" by simp
      then show ?thesis by blast
    next
      case 2
      with Cons.IH obtain k where "k \<le> length cs" "re_match_at ic p (drop k cs) \<noteq> None"
        by blast
      then have "Suc k \<le> length (c # cs)" "re_match_at ic p (drop (Suc k) (c # cs)) \<noteq> None"
        by simp_all
      then show ?thesis by blast
    qed
  next
    assume "\<exists>k\<le>length (c # cs). re_match_at ic p (drop k (c # cs)) \<noteq> None"
    then obtain k where k: "k \<le> length (c # cs)" "re_match_at ic p (drop k (c # cs)) \<noteq> None"
      by blast
    show "re_search ic p (c # cs) \<noteq> None"
    proof (cases k)
      case 0
      with k show ?thesis by (auto split: option.splits)
    next
      case (Suc j)
      with k have "j \<le> length cs" "re_match_at ic p (drop j cs) \<noteq> None" by simp_all
      with Cons.IH have "re_search ic p cs \<noteq> None" by blast
      then show ?thesis by (auto split: option.splits)
    qed
  qed
qed

lemma contains_drop_iff:
  "contains s p \<longleftrightarrow> (\<exists>k\<le>length s. startswith (drop k s) p)"
proof (induction s)
  case Nil
  show ?case by (auto simp: startswith_def)
next
  case (Cons c cs)
  show ?case
  proof
    assume "contains (c # cs) p"
    then consider "startswith (c # cs) p" | "contains cs p" by auto
    then show "\<exists>k\<le>length (c # cs). startswith (drop k (c # cs)) p"
    proof cases
      case 1
      then have "startswith (drop 0 (c # cs)) p" by simp
      then show ?thesis by blast
    next
      case 2
      with Cons.IH obtain k where "k \<le> length cs" "startswith (drop k cs) p" by blast
      then have "Suc k \<le> length (c # cs)" "startswith (drop (Suc k) (c # cs)) p" by simp_all
      then show ?thesis by blast
    qed
  next
    assume "\<exists>k\<le>length (c # cs). startswith (drop k (c # cs)) p"
    then obtain k where k: "k \<le> length (c # cs)" "startswith (drop k (c # cs)) p" by blast
    show "contains (c # cs) p"
    proof (cases k)
      case 0
      with k show ?thesis by simp
    next
      case (Suc j)
      with k have "j \<le> length cs" "startswith (drop j cs) p" by simp_all
      with Cons.IH have "contains cs p" by blast
      then show ?thesis by simp
    qed
  qed
qed

lemma search_lits_iff:
  "re_search True (map Lit p) s \<noteq> None \<longleftrightarrow> contains_ci s p"
  unfolding re_search_iff match_lits_iff contains_ci_def contains_drop_iff
  by (simp add: drop_map)

lemma match_space_star:
  "re_match_at ic (SpaceStar # r) s \<noteq> None
     \<Longrightarrow> \<exists>k\<le>length s. re_match_at ic r (drop k s) \<noteq> None"
proof (induction s)
  case Nil
  then show ?case by simp
next
  case (Cons d ds)
  show ?case
  proof (cases "is_space d \<and> re_match_at ic (SpaceStar # r) ds \<noteq> None")
    case True
    with Cons.IH obtain k where "k \<le> length ds" "re_match_at ic r (drop k ds) \<noteq> None"
      by blast
    then have "Suc k \<le> length (d # ds)" "re_match_at ic r (drop (Suc k) (d # ds)) \<noteq> None"
      by simp_all
    then show ?thesis by blast
  next
    case False
    with Cons.prems have "re_match_at ic r (drop 0 (d # ds)) \<noteq> None"
      by (auto split: if_splits option.splits)
    then show ?thesis by blast
  qed
qed

lemma match_append_later:
  "re_match_at ic (p @ q) s \<noteq> None \<Longrightarrow> \<exists>k\<le>length s. re_match_at ic q (drop k s) \<noteq> None"
proof (induction p arbitrary: s)
  case Nil
  then have "re_match_at ic q (drop 0 s) \<noteq> None" by simp
  then show ?case by blast
next
  case (Cons x p)
  have step: "\<exists>k\<le>length (d # ds). re_match_at ic q (drop k (d # ds)) \<noteq> None"
    if "re_match_at ic (p @ q) ds \<noteq> None" for d ds
  proof -
    from Cons.IH [OF that] obtain k where "k \<le> length ds" "re_match_at ic q (drop k ds) \<noteq> None"
      by blast
    then have "Suc k \<le> length (d # ds)" "re_match_at ic q (drop (Suc k) (d # ds)) \<noteq> None"
      by simp_all
    then show ?thesis by blast
  qed
  have star: "\<exists>k\<le>length t. re_match_at ic q (drop k t) \<noteq> None"
    if "re_match_at ic (SpaceStar # p @ q) t \<noteq> None" for t
  proof -
    from match_space_star [OF that] obtain k1 where
      k1: "k1 \<le> length t" "re_match_at ic (p @ q) (drop k1 t) \<noteq> None" by blast
    from Cons.IH [OF k1(2)] obtain k2 where
      k2: "k2 \<le> length (drop k1 t)" "re_match_at ic q (drop k2 (drop k1 t)) \<noteq> None" by blast
    from k1 k2 have "k2 + k1 \<le> length t" "re_match_at ic q (drop (k2 + k1) t) \<noteq> None"
      by simp_all
    then show ?thesis by blast
  qed
  show ?case
  proof (cases x)
    case (Lit c)
    with Cons.prems obtain d ds where "s = d # ds" "re_match_at ic (p @ q) ds \<noteq> None"
      by (cases s) (auto split: if_splits)
    with step show ?thesis by blast
  next
    case (OneOf cs)
    with Cons.prems obtain d ds where "s = d # ds" "re_match_at ic (p @ q) ds \<noteq> None"
      by (cases s) (auto split: if_splits)
    with step show ?thesis by blast
  next
    case Digit
    with Cons.prems obtain d ds where "s = d # ds" "re_match_at ic (p @ q) ds \<noteq> None"
      by (cases s) (auto split: if_splits)
    with step show ?thesis by blast
  next
    case SpaceStar
    with Cons.prems star show ?thesis by simp
  next
    case SpacePlus
    with Cons.prems obtain d ds where s: "s = d # ds"
      and "re_match_at ic (SpaceStar # p @ q) ds \<noteq> None"
      by (cases s) (auto split: if_splits)
    with star obtain k where "k \<le> length ds" "re_match_at ic q (drop k ds) \<noteq> None"
      by blast
    with s have "Suc k \<le> length s" "re_match_at ic q (drop (Suc k) s) \<noteq> None"
      by simp_all
    then show ?thesis by blast
  qed
qed

lemma search_append_later:
  assumes "re_search ic (p @ q) s \<noteq> None"
  shows "re_search ic q s \<noteq> None"
proof -
  from assms obtain k1 where k1: "k1 \<le> length s" "re_match_at ic (p @ q) (drop k1 s) \<noteq> None"
    unfolding re_search_iff by blast
  from match_append_later [OF k1(2)] obtain k2 where
    k2: "k2 \<le> length (drop k1 s)" "re_match_at ic q (drop k2 (drop k1 s)) \<noteq> None" by blast
  from k1 k2 have "k2 + k1 \<le> length s" "re_match_at ic q (drop (k2 + k1) s) \<noteq> None"
    by simp_all
  then show ?thesis
    unfolding re_search_iff by blast
qed

lemma contains_ci_inner:
  assumes "contains_ci s (x @ p @ y)"
  shows "contains_ci s p"
proof -
  from assms obtain a b where
    "map lower_char s = a @ (map lower_char x @ map lower_char p @ map lower_char y) @ b"
    by (auto simp: contains_ci_def contains_iff)
  then have "map lower_char s = (a @ map lower_char x) @ map lower_char p @ (map lower_char y @ b)"
    by simp
  then show ?thesis
    unfolding contains_ci_def contains_iff by blast
qed

lemma matches_trace_iff: "matches_trace tid line \<longleftrightarrow> contains_ci line tid"
proof
  assume "matches_trace tid line"
  then obtain p where p: "p \<in> set (trace_patterns tid)" "re_search True p line \<noteq> None"
    by (auto simp: matches_trace_def list_ex_iff)
  from p(1) consider (pre) pre where "p = pre @ re_escape tid"
    | (br) "p = map Lit (''['' @ tid @ '']'')"
    unfolding trace_patterns_def
    by (auto simp: re_escape_def)
  then show "contains_ci line tid"
  proof cases
    case pre
    with p(2) have "re_search True (re_escape tid) line \<noteq> None"
      using search_append_later [of True pre "re_escape tid" line] by blast
    then show ?thesis by (simp only: re_escape_def search_lits_iff)
  next
    case br
    with p(2) have "contains_ci line (''['' @ tid @ '']'')"
      by (simp only: search_lits_iff)
    then show ?thesis by (rule contains_ci_inner)
  qed
next
  assume "contains_ci line tid"
  then have "re_search True (re_escape tid) line \<noteq> None"
    by (simp only: re_escape_def search_lits_iff)
  moreover have "re_escape tid \<in> set (trace_patterns tid)"
    by (simp add: trace_patterns_def)
  ultimately show "matches_trace tid line"
    unfolding matches_trace_def list_ex_iff by blast
qed

section \<open>The loops\<close>

text \<open>The inner loop returns the index after the run of continuation lines, and has
  appended the stripped lines of the run.\<close>

lemma collect_stack_takeWhile:
  "collect_stack lines i st =
     (i + length (takeWhile is_continuation (drop i lines)),
      st @ map strip (takeWhile is_continuation (drop i lines)))"
proof (induction lines i st rule: collect_stack.induct)
  case (1 lines i st)
  show ?case
  proof (cases "i < length lines \<and> is_continuation (lines ! i)")
    case True
    then have d: "drop i lines = lines ! i # drop (i + 1) lines"
      by (simp add: Cons_nth_drop_Suc)
    from True have "collect_stack lines i st = collect_stack lines (i + 1) (st @ [strip (lines ! i)])"
      by (subst collect_stack.simps) simp
    also have "\<dots> = (i + 1 + length (takeWhile is_continuation (drop (i + 1) lines)),
         (st @ [strip (lines ! i)]) @ map strip (takeWhile is_continuation (drop (i + 1) lines)))"
      using "1.IH" True by simp
    finally show ?thesis
      using True d by simp
  next
    case False
    then have "takeWhile is_continuation (drop i lines) = []"
      by (cases "i < length lines") (auto simp: Cons_nth_drop_Suc [symmetric])
    with False show ?thesis
      by (subst collect_stack.simps) auto
  qed
qed

text \<open>The outer loop, one pass unfolded.\<close>

lemma parse_loop_step:
  "parse_loop tid lines i s =
     (if i < length lines then
        (if matches_trace tid (lines ! i) then
           (if extract_log_level (lines ! i) = ERROR then
              parse_loop tid lines (i + 1 + length (stack_of lines i))
                (add_entry ((new_entry i (lines ! i))\<lparr>stack_trace := stack_of lines i\<rparr>) s)
            else parse_loop tid lines (i + 1) (add_entry (new_entry i (lines ! i)) s))
         else parse_loop tid lines (i + 1) s)
      else s)"
  by (subst parse_loop.simps)
     (simp add: Let_def collect_stack_takeWhile add_entry_def stack_of_def new_entry_def count_level_def)

text \<open>The invariant rule of the outer loop: what holds at the start and is kept by a
  line that does not match, by a matched line that is no error, and by a matched error
  line with its stack trace, holds of the result, at an index past the last line.\<close>

lemma parse_loop_rule:
  assumes init: "I i s"
    and skip: "\<And>i s. I i s \<Longrightarrow> i < length lines \<Longrightarrow> \<not> matches_trace tid (lines ! i) \<Longrightarrow> I (i + 1) s"
    and plain: "\<And>i s. I i s \<Longrightarrow> i < length lines \<Longrightarrow> matches_trace tid (lines ! i) \<Longrightarrow>
        extract_log_level (lines ! i) \<noteq> ERROR \<Longrightarrow> I (i + 1) (add_entry (new_entry i (lines ! i)) s)"
    and err: "\<And>i s. I i s \<Longrightarrow> i < length lines \<Longrightarrow> matches_trace tid (lines ! i) \<Longrightarrow>
        extract_log_level (lines ! i) = ERROR \<Longrightarrow>
        I (i + 1 + length (stack_of lines i))
          (add_entry ((new_entry i (lines ! i))\<lparr>stack_trace := stack_of lines i\<rparr>) s)"
  shows "\<exists>k. length lines \<le> k \<and> I k (parse_loop tid lines i s)"
  using init
proof (induction "length lines - i" arbitrary: i s rule: less_induct)
  case less
  show ?case
  proof (cases "i < length lines")
    case False
    then have "parse_loop tid lines i s = s"
      by (subst parse_loop_step) simp
    with False less.prems show ?thesis
      by (intro exI [of _ i]) simp
  next
    case True
    show ?thesis
    proof (cases "matches_trace tid (lines ! i)")
      case False
      with True have eq: "parse_loop tid lines i s = parse_loop tid lines (i + 1) s"
        by (subst parse_loop_step) simp
      have "I (i + 1) s"
        using skip [OF less.prems True False] .
      with less.hyps [of "i + 1" s] True show ?thesis
        unfolding eq by simp
    next
      case m: True
      show ?thesis
      proof (cases "extract_log_level (lines ! i) = ERROR")
        case False
        with True m have eq: "parse_loop tid lines i s
            = parse_loop tid lines (i + 1) (add_entry (new_entry i (lines ! i)) s)"
          by (subst parse_loop_step) simp
        have "I (i + 1) (add_entry (new_entry i (lines ! i)) s)"
          using plain [OF less.prems True m False] .
        with less.hyps [of "i + 1"] True show ?thesis
          unfolding eq by simp
      next
        case e: True
        let ?j = "i + 1 + length (stack_of lines i)"
        let ?s = "add_entry ((new_entry i (lines ! i))\<lparr>stack_trace := stack_of lines i\<rparr>) s"
        from True m e have eq: "parse_loop tid lines i s = parse_loop tid lines ?j ?s"
          by (subst parse_loop_step) simp
        have "I ?j ?s"
          using err [OF less.prems True m e] .
        moreover have "length lines - ?j < length lines - i"
          using True by simp
        ultimately show ?thesis
          unfolding eq using less.hyps [of ?j ?s] by simp
      qed
    qed
  qed
qed

lemma logs_add_entry [simp]: "logs_acc (add_entry e s) = logs_acc s @ [e]"
  by (simp add: add_entry_def count_level_def)

lemma errors_add_entry [simp]:
  "errors_acc (add_entry e s) = errors_acc s + (if level e = ERROR then 1 else 0)"
  by (simp add: add_entry_def count_level_def)

lemma warns_add_entry [simp]:
  "warns_acc (add_entry e s) = warns_acc s + (if level e = WARN then 1 else 0)"
  by (simp add: add_entry_def count_level_def)

lemma infos_add_entry [simp]:
  "infos_acc (add_entry e s) = infos_acc s + (if level e = INFO then 1 else 0)"
  by (simp add: add_entry_def count_level_def)

lemma new_entry_simps [simp]:
  "line_number (new_entry i l) = i + 1"
  "timestamp (new_entry i l) = extract_timestamp l"
  "level (new_entry i l) = extract_log_level l"
  "content (new_entry i l) = strip l"
  "stack_trace (new_entry i l) = []"
  "source_file (new_entry i l) = None"
  by (simp_all add: new_entry_def)

subsection \<open>Invariants of the outer loop\<close>

lemma parse_loop_entries:
  "\<forall>e\<in>set (logs_acc (parse_loop tid lines 0 init_state)). entry_at tid lines e"
proof -
  let ?I = "\<lambda>(i::nat) s. \<forall>e\<in>set (logs_acc s). entry_at tid lines e"
  have "\<exists>k. length lines \<le> k \<and> ?I k (parse_loop tid lines 0 init_state)"
  proof (rule parse_loop_rule [where I = ?I], goal_cases)
    case 1
    show ?case by (simp add: init_state_def)
  next
    case (2 i s)
    then show ?case by simp
  next
    case (3 i s)
    then show ?case by (auto simp: entry_at_def)
  next
    case (4 i s)
    then show ?case by (auto simp: entry_at_def)
  qed
  then show ?thesis by blast
qed

lemma parse_loop_sorted:
  "sorted_wrt (<) (map line_number (logs_acc (parse_loop tid lines 0 init_state)))"
proof -
  let ?I = "\<lambda>(i::nat) s. sorted_wrt (<) (map line_number (logs_acc s))
              \<and> (\<forall>e\<in>set (logs_acc s). line_number e \<le> i)"
  have "\<exists>k. length lines \<le> k \<and> ?I k (parse_loop tid lines 0 init_state)"
  proof (rule parse_loop_rule [where I = ?I], goal_cases)
    case 1
    show ?case by (simp add: init_state_def)
  next
    case (2 i s)
    then show ?case by (auto intro: le_SucI)
  next
    case (3 i s)
    then show ?case by (auto simp: sorted_wrt_append intro: le_SucI)
  next
    case (4 i s)
    then show ?case by (fastforce simp: sorted_wrt_append)
  qed
  then show ?thesis by blast
qed

lemma parse_loop_counts:
  "errors_acc (parse_loop tid lines 0 init_state)
     = count_of ERROR (logs_acc (parse_loop tid lines 0 init_state)) \<and>
   warns_acc (parse_loop tid lines 0 init_state)
     = count_of WARN (logs_acc (parse_loop tid lines 0 init_state)) \<and>
   infos_acc (parse_loop tid lines 0 init_state)
     = count_of INFO (logs_acc (parse_loop tid lines 0 init_state))"
proof -
  let ?I = "\<lambda>(i::nat) s. errors_acc s = count_of ERROR (logs_acc s)
              \<and> warns_acc s = count_of WARN (logs_acc s)
              \<and> infos_acc s = count_of INFO (logs_acc s)"
  have "\<exists>k. length lines \<le> k \<and> ?I k (parse_loop tid lines 0 init_state)"
  proof (rule parse_loop_rule [where I = ?I], goal_cases)
    case 1
    show ?case by (simp add: init_state_def count_of_def)
  next
    case (2 i s)
    then show ?case by simp
  next
    case (3 i s)
    then show ?case by (simp add: count_of_def)
  next
    case (4 i s)
    then show ?case by (simp add: count_of_def)
  qed
  then show ?thesis by blast
qed

lemma parse_loop_next_line:
  "\<forall>e\<in>set (logs_acc (parse_loop tid lines 0 init_state)).
     level e \<noteq> ERROR \<and> line_number e < length lines
       \<and> matches_trace tid (lines ! line_number e)
     \<longrightarrow> (\<exists>e'\<in>set (logs_acc (parse_loop tid lines 0 init_state)).
            line_number e' = line_number e + 1)"
proof -
  let ?I = "\<lambda>(i::nat) s. (\<forall>e\<in>set (logs_acc s). line_number e \<le> i) \<and>
     (\<forall>e\<in>set (logs_acc s).
       level e \<noteq> ERROR \<and> line_number e < length lines \<and> matches_trace tid (lines ! line_number e)
       \<longrightarrow> (\<exists>e'\<in>set (logs_acc s). line_number e' = line_number e + 1) \<or> line_number e = i)"
  have "\<exists>k. length lines \<le> k \<and> ?I k (parse_loop tid lines 0 init_state)"
  proof (rule parse_loop_rule [where I = ?I], goal_cases)
    case 1
    show ?case by (simp add: init_state_def)
  next
    case (2 i s)
    then show ?case by (auto intro: le_SucI)
  next
    case (3 i s)
    then show ?case by (auto intro: le_SucI)
  next
    case (4 i s)
    then show ?case by (fastforce)
  qed
  then obtain k where k: "length lines \<le> k" "?I k (parse_loop tid lines 0 init_state)"
    by blast
  show ?thesis
  proof (intro ballI impI)
    fix e
    assume e: "e \<in> set (logs_acc (parse_loop tid lines 0 init_state))"
      and h: "level e \<noteq> ERROR \<and> line_number e < length lines
        \<and> matches_trace tid (lines ! line_number e)"
    with k(2) have "(\<exists>e'\<in>set (logs_acc (parse_loop tid lines 0 init_state)).
          line_number e' = line_number e + 1) \<or> line_number e = k"
      by blast
    with k(1) h show "\<exists>e'\<in>set (logs_acc (parse_loop tid lines 0 init_state)).
          line_number e' = line_number e + 1"
      by auto
  qed
qed

lemma parse_trace_logs_entries:
  assumes "fs log_file = Some lines"
  shows "\<forall>e\<in>set (logs (parse_trace_logs fs log_file tid)). entry_at tid lines e"
  using assms parse_loop_entries [of tid lines]
  by (simp add: parse_trace_logs_def Let_def)

lemma entry_at_fields:
  assumes "entry_at tid lines e"
  shows "1 \<le> line_number e" and "line_number e \<le> length lines"
    and "matches_trace tid (lines ! (line_number e - 1))"
    and "timestamp e = extract_timestamp (lines ! (line_number e - 1))"
    and "level e = extract_log_level (lines ! (line_number e - 1))"
    and "content e = strip (lines ! (line_number e - 1))"
    and "stack_trace e = (if extract_log_level (lines ! (line_number e - 1)) = ERROR
                then stack_of lines (line_number e - 1) else [])"
    and "source_file e = None"
proof -
  from assms have eq: "e = (new_entry (line_number e - 1) (lines ! (line_number e - 1)))
            \<lparr>stack_trace :=
               (if extract_log_level (lines ! (line_number e - 1)) = ERROR
                then stack_of lines (line_number e - 1) else [])\<rparr>"
    by (simp add: entry_at_def)
  from assms show "1 \<le> line_number e" and "line_number e \<le> length lines"
    and "matches_trace tid (lines ! (line_number e - 1))"
    by (simp_all add: entry_at_def)
  from arg_cong [OF eq, of timestamp]
  show "timestamp e = extract_timestamp (lines ! (line_number e - 1))" by simp
  from arg_cong [OF eq, of level]
  show "level e = extract_log_level (lines ! (line_number e - 1))" by simp
  from arg_cong [OF eq, of content]
  show "content e = strip (lines ! (line_number e - 1))" by simp
  from arg_cong [OF eq, of stack_trace]
  show "stack_trace e = (if extract_log_level (lines ! (line_number e - 1)) = ERROR
                then stack_of lines (line_number e - 1) else [])" by simp
  from arg_cong [OF eq, of source_file]
  show "source_file e = None" by simp
qed

section \<open>The directory scan\<close>

lemma parse_trace_logs_counts:
  "error_count (parse_trace_logs fs f tid) = count_of ERROR (logs (parse_trace_logs fs f tid))"
  "warn_count (parse_trace_logs fs f tid) = count_of WARN (logs (parse_trace_logs fs f tid))"
  "info_count (parse_trace_logs fs f tid) = count_of INFO (logs (parse_trace_logs fs f tid))"
  "total_logs (parse_trace_logs fs f tid) = length (logs (parse_trace_logs fs f tid))"
  using parse_loop_counts
  by (auto simp: parse_trace_logs_def Let_def count_of_def split: option.splits)

lemma scan_file_eq:
  "scan_file fs tid acc f =
     acc\<lparr> dir_sources := dir_sources acc @ (if logs (parse_trace_logs fs f tid) \<noteq> [] then [f] else []),
          all_logs := all_logs acc @ tagged fs tid f,
          dir_errors := dir_errors acc + error_count (parse_trace_logs fs f tid),
          dir_warns := dir_warns acc + warn_count (parse_trace_logs fs f tid),
          dir_infos := dir_infos acc + info_count (parse_trace_logs fs f tid) \<rparr>"
  by (simp add: scan_file_def Let_def tagged_def parse_trace_logs_counts count_of_def)

lemma foldl_scan_file:
  "all_logs (foldl (scan_file fs tid) acc fl) = all_logs acc @ concat (map (tagged fs tid) fl) \<and>
   dir_sources (foldl (scan_file fs tid) acc fl)
     = dir_sources acc @ filter (\<lambda>f. logs (parse_trace_logs fs f tid) \<noteq> []) fl \<and>
   dir_errors (foldl (scan_file fs tid) acc fl)
     = dir_errors acc + sum_list (map (\<lambda>f. error_count (parse_trace_logs fs f tid)) fl) \<and>
   dir_warns (foldl (scan_file fs tid) acc fl)
     = dir_warns acc + sum_list (map (\<lambda>f. warn_count (parse_trace_logs fs f tid)) fl) \<and>
   dir_infos (foldl (scan_file fs tid) acc fl)
     = dir_infos acc + sum_list (map (\<lambda>f. info_count (parse_trace_logs fs f tid)) fl)"
proof (induction fl arbitrary: acc)
  case Nil
  show ?case by simp
next
  case (Cons f fl)
  show ?case
    by (simp add: Cons.IH [of "scan_file fs tid acc f"]) (simp add: scan_file_eq)
qed

lemma directory_fields:
  "logs (parse_trace_logs_from_directory fs fl tid)
     = sort_logs_by_timestamp (concat (map (tagged fs tid) fl))"
  "source_files (parse_trace_logs_from_directory fs fl tid)
     = Some (filter (\<lambda>f. logs (parse_trace_logs fs f tid) \<noteq> []) fl)"
  "error_count (parse_trace_logs_from_directory fs fl tid)
     = sum_list (map (\<lambda>f. error_count (parse_trace_logs fs f tid)) fl)"
  "warn_count (parse_trace_logs_from_directory fs fl tid)
     = sum_list (map (\<lambda>f. warn_count (parse_trace_logs fs f tid)) fl)"
  "info_count (parse_trace_logs_from_directory fs fl tid)
     = sum_list (map (\<lambda>f. info_count (parse_trace_logs fs f tid)) fl)"
  "total_logs (parse_trace_logs_from_directory fs fl tid)
     = length (logs (parse_trace_logs_from_directory fs fl tid))"
  by (simp_all add: parse_trace_logs_from_directory_def Let_def foldl_scan_file init_dir_def)

lemma count_of_sort [simp]: "count_of l (sort_logs_by_timestamp es) = count_of l es"
  by (simp add: count_of_def sort_logs_by_timestamp_def filter_sort)

lemma length_sort_logs [simp]: "length (sort_logs_by_timestamp es) = length es"
  by (simp add: sort_logs_by_timestamp_def)

lemma count_of_Nil [simp]: "count_of l [] = 0"
  by (simp add: count_of_def)

lemma count_of_append [simp]: "count_of l (xs @ ys) = count_of l xs + count_of l ys"
  by (simp add: count_of_def)

lemma count_of_tagged [simp]:
  "count_of l (tagged fs tid f) = count_of l (logs (parse_trace_logs fs f tid))"
  by (simp add: count_of_def tagged_def filter_map o_def)

lemma length_tagged [simp]:
  "length (tagged fs tid f) = length (logs (parse_trace_logs fs f tid))"
  by (simp add: tagged_def)

lemma count_of_concat_tagged:
  "count_of l (concat (map (tagged fs tid) fl))
     = sum_list (map (\<lambda>f. count_of l (logs (parse_trace_logs fs f tid))) fl)"
  by (induction fl) simp_all

lemma directory_counts:
  "error_count (parse_trace_logs_from_directory fs fl tid)
     = count_of ERROR (logs (parse_trace_logs_from_directory fs fl tid))"
  "warn_count (parse_trace_logs_from_directory fs fl tid)
     = count_of WARN (logs (parse_trace_logs_from_directory fs fl tid))"
  "info_count (parse_trace_logs_from_directory fs fl tid)
     = count_of INFO (logs (parse_trace_logs_from_directory fs fl tid))"
  by (simp_all add: directory_fields count_of_concat_tagged parse_trace_logs_counts)

section \<open>The scenario of the specification, evaluated\<close>

lemma scenario_entries:
  "logs_acc (parse_loop ''req-42'' scenario_lines 0 init_state) =
     [ \<lparr>line_number = 1, timestamp = ''2024-01-01 10:00:00'', level = INFO,
         content = ''2024-01-01 10:00:00 INFO [req-42] start'',
         stack_trace = [], source_file = None\<rparr>,
       \<lparr>line_number = 2, timestamp = ''2024-01-01 10:00:05'', level = ERROR,
         content = ''2024-01-01 10:00:05 ERROR [req-42] boom'',
         stack_trace = [''at com.foo.Bar.baz''], source_file = None\<rparr>,
       \<lparr>line_number = 4, timestamp = ''2024-01-01 09:59:59'', level = WARN,
         content = ''2024-01-01 09:59:59 WARN [req-42] before'',
         stack_trace = [], source_file = None\<rparr> ]"
  by code_simp

lemma scenario_keys:
  "try_formats ''2024-01-01 10:00:00'' = Some (2024, 1, 1, 10, 0, 0, 0)"
  "try_formats ''2024-01-01 10:00:05'' = Some (2024, 1, 1, 10, 0, 5, 0)"
  "try_formats ''2024-01-01 09:59:59'' = Some (2024, 1, 1, 9, 59, 59, 0)"
  by code_simp+

lemma worker_entries:
  "logs_acc (parse_loop ''req-42'' worker_lines 0 init_state) =
     [ \<lparr>line_number = 1, timestamp = ''2024-01-01 10:00:02'', level = DEBUG,
         content = ''2024-01-01 10:00:02 DEBUG requestId=req-42 step'',
         stack_trace = [], source_file = None\<rparr>,
       \<lparr>line_number = 2, timestamp = ''Unknown'', level = UNKNOWN,
         content = ''error [REQ-42] lowercase level'', stack_trace = [],
         source_file = None\<rparr>,
       \<lparr>line_number = 3, timestamp = ''2024-01-01 10:00:03'', level = WARN,
         content = ''2024-01-01 10:00:03 WARN [req-42] slow call'',
         stack_trace = [], source_file = None\<rparr>,
       \<lparr>line_number = 4, timestamp = ''Unknown'', level = UNKNOWN,
         content = ''retry for [req-42] scheduled'', stack_trace = [],
         source_file = None\<rparr> ]"
  by code_simp

lemma worker_logs:
  "logs (parse_trace_logs service_fs ''svc/worker.log'' ''req-42'')
     = logs_acc (parse_loop ''req-42'' worker_lines 0 init_state)"
  by (simp add: parse_trace_logs_def service_fs_def Let_def)

lemma app_logs:
  "logs (parse_trace_logs service_fs ''svc/app.log'' ''req-42'')
     = logs_acc (parse_loop ''req-42'' scenario_lines 0 init_state)"
  by (simp add: parse_trace_logs_def service_fs_def Let_def)

section \<open>No parsed timestamp is before \<open>datetime.min\<close>\<close>

lemma first_some_SomeD: "first_some f xs = Some y \<Longrightarrow> \<exists>x\<in>set xs. f x = Some y"
  by (induction xs) (auto split: option.splits)

lemma fmt_match_caps:
  "fmt_match fmt s = Some (caps, rest)
     \<Longrightarrow> \<forall>(d, m)\<in>set caps. \<exists>t r. (m, r) \<in> set (directive_alts d t)"
proof (induction fmt arbitrary: s caps rest)
  case Nil
  then show ?case by simp
next
  case (Cons d ds)
  from Cons.prems obtain x where x: "x \<in> set (directive_alts d s)"
    and fx: "(case x of (m, r) \<Rightarrow>
        map_option (\<lambda>(caps, rest). ((d, m) # caps, rest)) (fmt_match ds r)) = Some (caps, rest)"
    by (auto dest: first_some_SomeD)
  obtain m r where mr: "x = (m, r)" by (cases x)
  with fx obtain caps' where c: "fmt_match ds r = Some (caps', rest)" "caps = (d, m) # caps'"
    by auto
  from Cons.IH [OF c(1)] x mr c(2) show ?case by auto
qed

lemma take_classes_one:
  "(m, r) \<in> set (take_classes [c1] s) \<Longrightarrow> \<exists>a. m = [a] \<and> a \<in> set c1"
  by (cases s) (auto split: if_splits)

lemma take_classes_two:
  "(m, r) \<in> set (take_classes [c1, c2] s) \<Longrightarrow> \<exists>a b. m = [a, b] \<and> a \<in> set c1 \<and> b \<in> set c2"
proof (cases s)
  case Nil
  assume "(m, r) \<in> set (take_classes [c1, c2] s)"
  with Nil show ?thesis by simp
next
  case (Cons a t)
  assume "(m, r) \<in> set (take_classes [c1, c2] s)"
  with Cons obtain m' where "a \<in> set c1" "m = a # m'" "(m', r) \<in> set (take_classes [c2] t)"
    by (auto split: if_splits)
  with take_classes_one [of m' r c2 t] show ?thesis by auto
qed

lemma digit_val_19: "b \<in> set digits19 \<Longrightarrow> 1 \<le> digit_val b"
  by (auto simp: digits19_def digit_val_def)

lemma int_of_digits_two: "int_of_digits [a, b] = 10 * digit_val a + digit_val b"
  by (simp add: int_of_digits_def)

lemma month_alts_ge1:
  assumes "(m, r) \<in> set (directive_alts Dm t)"
  shows "1 \<le> int_of_digits m"
proof -
  from assms consider "(m, r) \<in> set (take_classes [''1'', ''012''] t)"
    | "(m, r) \<in> set (take_classes [''0'', digits19] t)"
    | "(m, r) \<in> set (take_classes [digits19] t)"
    by auto
  then show ?thesis
  proof cases
    case 1
    from take_classes_two [OF 1] show ?thesis
      by (auto simp: int_of_digits_two digit_val_def)
  next
    case 2
    from take_classes_two [OF 2] show ?thesis
      by (auto simp: int_of_digits_two dest: digit_val_19)
  next
    case 3
    from take_classes_one [OF 3] show ?thesis
      by (auto simp: int_of_digits_def dest: digit_val_19)
  qed
qed

lemma day_alts_ge1:
  assumes "(m, r) \<in> set (directive_alts Dd t)"
  shows "1 \<le> int_of_digits m"
proof -
  from assms consider "(m, r) \<in> set (take_classes [''3'', ''01''] t)"
    | "(m, r) \<in> set (take_classes [''12'', digits09] t)"
    | "(m, r) \<in> set (take_classes [''0'', digits19] t)"
    | "(m, r) \<in> set (take_classes [digits19] t)"
    | "(m, r) \<in> set (take_classes ['' '', digits19] t)"
    by auto
  then show ?thesis
  proof cases
    case 1
    from take_classes_two [OF 1] show ?thesis
      by (auto simp: int_of_digits_two digit_val_def)
  next
    case 2
    from take_classes_two [OF 2] show ?thesis
      by (auto simp: int_of_digits_two digit_val_def)
  next
    case 3
    from take_classes_two [OF 3] show ?thesis
      by (auto simp: int_of_digits_two dest: digit_val_19)
  next
    case 4
    from take_classes_one [OF 4] show ?thesis
      by (auto simp: int_of_digits_def dest: digit_val_19)
  next
    case 5
    from take_classes_two [OF 5] show ?thesis
      by (auto simp: int_of_digits_two dest: digit_val_19)
  qed
qed

lemma strptime_fields:
  assumes "strptime s fmt = Some (y, mo, dd, rest)"
  shows "1 \<le> y \<and> 1 \<le> mo \<and> 1 \<le> dd"
proof -
  from assms obtain caps where caps: "fmt_match fmt s = Some (caps, [])"
    and y: "1 \<le> field caps DY 1900" "y = field caps DY 1900"
    and mo: "mo = field caps Dm 1" and dd: "dd = field caps Dd 1"
    by (auto simp: strptime_def Let_def split: option.splits if_splits)
  note alts = fmt_match_caps [OF caps]
  have "1 \<le> field caps Dm 1"
  proof (cases "map_of caps Dm")
    case None
    then show ?thesis by (simp add: field_def)
  next
    case (Some m)
    then have "(Dm, m) \<in> set caps" by (rule map_of_SomeD)
    with alts obtain t r where "(m, r) \<in> set (directive_alts Dm t)" by blast
    then have "1 \<le> int_of_digits m" by (rule month_alts_ge1)
    with Some show ?thesis by (simp add: field_def)
  qed
  moreover have "1 \<le> field caps Dd 1"
  proof (cases "map_of caps Dd")
    case None
    then show ?thesis by (simp add: field_def)
  next
    case (Some m)
    then have "(Dd, m) \<in> set caps" by (rule map_of_SomeD)
    with alts obtain t r where "(m, r) \<in> set (directive_alts Dd t)" by blast
    then have "1 \<le> int_of_digits m" by (rule day_alts_ge1)
    with Some show ?thesis by (simp add: field_def)
  qed
  ultimately show ?thesis
    using y mo dd by simp
qed

lemma datetime_min_le:
  assumes "1 \<le> y" "1 \<le> mo" "1 \<le> dd"
  shows "datetime_min \<le> (y, mo, dd, rest)"
  using assms by (cases rest) (auto simp: datetime_min_def less_eq_prod_def)

lemma try_formats_ge_min:
  assumes "try_formats t = Some d"
  shows "datetime_min \<le> d"
proof -
  from assms obtain fmt where "strptime (ts_text t) fmt = Some d"
    by (auto simp: try_formats_def dest: first_some_SomeD)
  moreover obtain y mo dd rest where "d = (y, mo, dd, rest)"
    by (cases d) auto
  ultimately show ?thesis
    using strptime_fields datetime_min_le by blast
qed

lemma parse_timestamp_parsed:
  "parse_timestamp e = (case timestamp_parsed e of Some d \<Rightarrow> d | None \<Rightarrow> datetime_min)"
  by (simp add: parse_timestamp_def timestamp_parsed_def)

lemma parse_timestamp_ge_min: "datetime_min \<le> parse_timestamp e"
  by (auto simp: parse_timestamp_def dest: try_formats_ge_min split: option.splits)

section \<open>The sort by timestamp\<close>

lemma sorted_keys: "sorted (map parse_timestamp (sort_logs_by_timestamp ls))"
  by (simp add: sort_logs_by_timestamp_def)

lemma stable_keys:
  "filter (\<lambda>e. parse_timestamp e = k) (sort_logs_by_timestamp ls)
     = filter (\<lambda>e. parse_timestamp e = k) ls"
  by (simp add: sort_logs_by_timestamp_def sort_key_stable)

lemma absent_key: "timestamp_parsed e = None \<Longrightarrow> parse_timestamp e = datetime_min"
  by (simp add: parse_timestamp_parsed)

lemma parsed_key: "timestamp_parsed e = Some d \<Longrightarrow> parse_timestamp e = d"
  by (simp add: parse_timestamp_parsed)

lemma absent_order:
  "filter (\<lambda>e. timestamp_parsed e = None) (sort_logs_by_timestamp ls)
     = filter (\<lambda>e. timestamp_parsed e = None) ls"
proof -
  have "filter (\<lambda>e. timestamp_parsed e = None) xs
      = filter (\<lambda>e. timestamp_parsed e = None) (filter (\<lambda>e. parse_timestamp e = datetime_min) xs)"
    for xs
    by (auto simp: absent_key intro: filter_cong)
  from this [of "sort_logs_by_timestamp ls"] this [of ls] show ?thesis
    by (simp only: stable_keys)
qed

lemma absent_before_later:
  assumes "i < length ls" "j < length ls"
    and "timestamp_parsed (sort_logs_by_timestamp ls ! i) = None"
    and "timestamp_parsed (sort_logs_by_timestamp ls ! j) = Some d"
    and "datetime_min < d"
  shows "i < j"
proof (rule ccontr)
  assume "\<not> i < j"
  then have "j \<le> i" by simp
  with assms(1) have "map parse_timestamp (sort_logs_by_timestamp ls) ! j
      \<le> map parse_timestamp (sort_logs_by_timestamp ls) ! i"
    using sorted_keys [of ls] by (intro sorted_nth_mono) simp_all
  with assms(1,2) have "parse_timestamp (sort_logs_by_timestamp ls ! j)
      \<le> parse_timestamp (sort_logs_by_timestamp ls ! i)"
    by simp
  with assms(3,4) have "d \<le> datetime_min"
    by (simp add: absent_key parsed_key)
  with assms(5) show False by simp
qed

lemma parsed_sorted:
  "sorted (map (the \<circ> timestamp_parsed)
     (filter (\<lambda>e. timestamp_parsed e \<noteq> None) (sort_logs_by_timestamp ls)))"
proof -
  have eq: "map (the \<circ> timestamp_parsed) (filter (\<lambda>e. timestamp_parsed e \<noteq> None) xs)
      = map parse_timestamp (filter (\<lambda>e. timestamp_parsed e \<noteq> None) xs)" for xs
    by (auto simp: parsed_key)
  show ?thesis
    unfolding eq using sorted_keys [of ls] by (rule sorted_filter)
qed

lemma all_parsed_sorted:
  assumes "\<forall>e\<in>set ls. timestamp_parsed e \<noteq> None"
  shows "sorted (map (the \<circ> timestamp_parsed) (sort_logs_by_timestamp ls))"
proof -
  have "\<forall>e\<in>set (sort_logs_by_timestamp ls). timestamp_parsed e \<noteq> None"
    using assms by (simp only: sort_logs_by_timestamp_def set_sort)
  then have "filter (\<lambda>e. timestamp_parsed e \<noteq> None) (sort_logs_by_timestamp ls)
      = sort_logs_by_timestamp ls"
    by (simp only: filter_id_conv)
  with parsed_sorted [of ls] show ?thesis by (simp only:)
qed

section \<open>The other examples, evaluated\<close>

lemma epoch_logs:
  "logs (parse_trace_logs_from_directory epoch_fs [''epoch.log''] ''req-42'') =
     [ \<lparr>line_number = 1, timestamp = ''0001-01-01 00:00:00'', level = INFO,
         content = ''0001-01-01 00:00:00 INFO [req-42] first'',
         stack_trace = [], source_file = Some ''epoch.log''\<rparr>,
       \<lparr>line_number = 2, timestamp = ''Unknown'', level = INFO,
         content = ''INFO [req-42] no timestamp'', stack_trace = [],
         source_file = Some ''epoch.log''\<rparr> ]"
  by code_simp

lemma epoch_key: "try_formats ''0001-01-01 00:00:00'' = Some (1, 1, 1, 0, 0, 0, 0)"
  by code_simp

lemma worker_keys:
  "try_formats ''2024-01-01 10:00:02'' = Some (2024, 1, 1, 10, 0, 2, 0)"
  "try_formats ''2024-01-01 10:00:03'' = Some (2024, 1, 1, 10, 0, 3, 0)"
  by code_simp+

lemma worker_sorted:
  "sort_logs_by_timestamp (logs_acc (parse_loop ''req-42'' worker_lines 0 init_state)) =
     [ \<lparr>line_number = 2, timestamp = ''Unknown'', level = UNKNOWN,
         content = ''error [REQ-42] lowercase level'', stack_trace = [],
         source_file = None\<rparr>,
       \<lparr>line_number = 4, timestamp = ''Unknown'', level = UNKNOWN,
         content = ''retry for [req-42] scheduled'', stack_trace = [],
         source_file = None\<rparr>,
       \<lparr>line_number = 1, timestamp = ''2024-01-01 10:00:02'', level = DEBUG,
         content = ''2024-01-01 10:00:02 DEBUG requestId=req-42 step'',
         stack_trace = [], source_file = None\<rparr>,
       \<lparr>line_number = 3, timestamp = ''2024-01-01 10:00:03'', level = WARN,
         content = ''2024-01-01 10:00:03 WARN [req-42] slow call'',
         stack_trace = [], source_file = None\<rparr> ]"
  by (simp add: worker_entries sort_logs_by_timestamp_def parse_timestamp_def worker_keys
      datetime_min_def)

lemma thirteen_entry:
  "new_entry 0 thirteen_line =
     \<lparr>line_number = 1, timestamp = ''2024-13-01 10:00:00'', level = INFO,
       content = ''2024-13-01 10:00:00 INFO [req-42] month thirteen'',
       stack_trace = [], source_file = None\<rparr>"
  by code_simp

lemma thirteen_key: "try_formats ''2024-13-01 10:00:00'' = None"
  by code_simp

lemma orders_logs:
  "map content (logs (parse_trace_logs orders_fs ''orders.log'' ''req-42''))
     = [''2024-01-01 10:00:06 INFO GET /orders req-429 done'']"
  by code_simp

section \<open>The claims\<close>

text \<open>
  C1. For the single source whose lines are
  \<open>2024-01-01 10:00:00 INFO [req-42] start\<close>,
  \<open>2024-01-01 10:00:05 ERROR [req-42] boom\<close>, a tab and \<open>at com.foo.Bar.baz\<close>,
  \<open>2024-01-01 09:59:59 WARN [req-42] before\<close>, extracting with the identifier
  \<open>req-42\<close> and merging yields exactly three entries, ordered the 09:59:59 WARN
  entry, the 10:00:00 INFO entry, the 10:00:05 ERROR entry, and the stack trace of the
  ERROR entry is \<open>at com.foo.Bar.baz\<close> alone.
\<close>

theorem C1_scenario:
  assumes "fs log_file = Some scenario_lines"
  shows "logs (parse_trace_logs_from_directory fs [log_file] ''req-42'') =
     [ \<lparr>line_number = 4, timestamp = ''2024-01-01 09:59:59'', level = WARN,
         content = ''2024-01-01 09:59:59 WARN [req-42] before'',
         stack_trace = [], source_file = Some (basename log_file)\<rparr>,
       \<lparr>line_number = 1, timestamp = ''2024-01-01 10:00:00'', level = INFO,
         content = ''2024-01-01 10:00:00 INFO [req-42] start'',
         stack_trace = [], source_file = Some (basename log_file)\<rparr>,
       \<lparr>line_number = 2, timestamp = ''2024-01-01 10:00:05'', level = ERROR,
         content = ''2024-01-01 10:00:05 ERROR [req-42] boom'',
         stack_trace = [''at com.foo.Bar.baz''], source_file = Some (basename log_file)\<rparr> ]"
proof -
  have "logs (parse_trace_logs fs log_file ''req-42'')
      = logs_acc (parse_loop ''req-42'' scenario_lines 0 init_state)"
    using assms by (simp add: parse_trace_logs_def Let_def)
  then show ?thesis
    by (simp add: directory_fields tagged_def scenario_entries sort_logs_by_timestamp_def
        parse_timestamp_def scenario_keys)
qed

theorem C1_scenario_witness:
  "scenario_fs ''logs/app.log'' = Some scenario_lines \<and>
   logs (parse_trace_logs_from_directory scenario_fs [''logs/app.log''] ''req-42'') =
     [ \<lparr>line_number = 4, timestamp = ''2024-01-01 09:59:59'', level = WARN,
         content = ''2024-01-01 09:59:59 WARN [req-42] before'',
         stack_trace = [], source_file = Some ''app.log''\<rparr>,
       \<lparr>line_number = 1, timestamp = ''2024-01-01 10:00:00'', level = INFO,
         content = ''2024-01-01 10:00:00 INFO [req-42] start'',
         stack_trace = [], source_file = Some ''app.log''\<rparr>,
       \<lparr>line_number = 2, timestamp = ''2024-01-01 10:00:05'', level = ERROR,
         content = ''2024-01-01 10:00:05 ERROR [req-42] boom'',
         stack_trace = [''at com.foo.Bar.baz''], source_file = Some ''app.log''\<rparr> ]"
proof -
  have h: "scenario_fs ''logs/app.log'' = Some scenario_lines"
    by (simp add: scenario_fs_def)
  have b: "basename ''logs/app.log'' = ''app.log''"
    by (simp add: basename_def)
  show ?thesis
    using h C1_scenario [of scenario_fs "''logs/app.log''", OF h] by (simp add: b)
qed

text \<open>
  C2 (amended). For the identifier \<open>req-42\<close>, and for every identifier, the match test
  accepts every line that contains the bracketed identifier without regard to case. It
  accepts a line exactly when the line contains the identifier itself without regard to
  case, because the raw identifier is the sixth pattern: a line that contains
  \<open>req-429\<close> is accepted for \<open>req-42\<close> although no delimited pattern matches.
\<close>

theorem C2_substring_match:
  "(contains_ci line (''['' @ tid @ '']'') \<longrightarrow> matches_trace tid line) \<and>
   (matches_trace tid line \<longleftrightarrow> contains_ci line tid) \<and>
   (contains_ci line ''req-429'' \<longrightarrow> matches_trace ''req-42'' line)"
proof -
  have "contains_ci line ''req-42''" if "contains_ci line ''req-429''"
    using contains_ci_inner [of line "[]" "''req-42''" "''9''"] that by simp
  then show ?thesis
    using contains_ci_inner [of line "''[''" tid "'']''"] by (simp add: matches_trace_iff)
qed

theorem C2_substring_match_witness:
  "contains_ci (worker_lines ! 1) ''[req-42]'' \<and>
   \<not> contains (worker_lines ! 1) ''[req-42]'' \<and>
   matches_trace ''req-42'' (worker_lines ! 1) \<and>
   contains_ci orders_line ''req-429'' \<and>
   matches_trace ''req-42'' orders_line \<and>
   \<not> contains_ci (worker_lines ! 4) ''req-42'' \<and>
   \<not> matches_trace ''req-42'' (worker_lines ! 4)"
proof -
  have a: "contains_ci (worker_lines ! 1) (''['' @ ''req-42'' @ '']'')"
    by code_simp
  have b: "\<not> contains (worker_lines ! 1) ''[req-42]''"
    by code_simp
  have c: "contains_ci orders_line ''req-429''"
    by code_simp
  have d: "\<not> contains_ci (worker_lines ! 4) ''req-42''"
    by code_simp
  have "matches_trace ''req-42'' (worker_lines ! 1)"
    using C2_substring_match [of "worker_lines ! 1" "''req-42''"] a by blast
  moreover have "matches_trace ''req-42'' orders_line"
    using C2_substring_match [of orders_line "''req-42''"] c by blast
  moreover have "\<not> matches_trace ''req-42'' (worker_lines ! 4)"
    using C2_substring_match [of "worker_lines ! 4" "''req-42''"] d by blast
  ultimately show ?thesis
    using a b c d by simp
qed

text \<open>
  C2 as stated fails on the line of \<open>orders_line\<close>: the identifier occurs in it only
  inside \<open>req-429\<close>, none of the five delimited patterns matches, and the line is
  matched and becomes a log entry all the same.
\<close>

theorem C2_counterexample:
  "contains orders_line ''req-429'' \<and>
   \<not> delimited_match ''req-42'' orders_line \<and>
   matches_trace ''req-42'' orders_line \<and>
   orders_fs ''orders.log'' = Some [orders_line] \<and>
   map content (logs (parse_trace_logs orders_fs ''orders.log'' ''req-42''))
     = [''2024-01-01 10:00:06 INFO GET /orders req-429 done'']"
proof -
  have "contains orders_line ''req-429''" by code_simp
  moreover have "\<not> delimited_match ''req-42'' orders_line" by code_simp
  moreover have "matches_trace ''req-42'' orders_line" by code_simp
  moreover have "orders_fs ''orders.log'' = Some [orders_line]" by (simp add: orders_fs_def)
  ultimately show ?thesis
    using orders_logs by blast
qed

text \<open>
  C3 (amended). The merge sorts stably by the parsed timestamp, where an entry with no
  parsed timestamp has the minimum \<open>datetime\<close> as its key: the keys of the merged list
  are non-decreasing, entries of equal key keep their concatenation order, the entries with
  no parsed timestamp keep their concatenation order among themselves, and every entry
  with no parsed timestamp precedes every entry whose parsed timestamp is later than the
  minimum \<open>datetime\<close> (an entry parsed as exactly 0001-01-01 00:00:00 ties with the
  entries that have none). The entries with a parsed timestamp are in non-decreasing
  order of it; if every entry has one, so is the whole merged list. The entries of a
  directory scan are the concatenation of the tagged entries of the files, sorted so.
\<close>

theorem C3_stable_sort:
  "sorted (map parse_timestamp (sort_logs_by_timestamp ls)) \<and>
   (\<forall>k. filter (\<lambda>e. parse_timestamp e = k) (sort_logs_by_timestamp ls)
          = filter (\<lambda>e. parse_timestamp e = k) ls) \<and>
   filter (\<lambda>e. timestamp_parsed e = None) (sort_logs_by_timestamp ls)
     = filter (\<lambda>e. timestamp_parsed e = None) ls \<and>
   (\<forall>i j d. i < length ls \<and> j < length ls
      \<and> timestamp_parsed (sort_logs_by_timestamp ls ! i) = None
      \<and> timestamp_parsed (sort_logs_by_timestamp ls ! j) = Some d \<and> datetime_min < d
      \<longrightarrow> i < j) \<and>
   sorted (map (the \<circ> timestamp_parsed)
     (filter (\<lambda>e. timestamp_parsed e \<noteq> None) (sort_logs_by_timestamp ls))) \<and>
   ((\<forall>e\<in>set ls. timestamp_parsed e \<noteq> None)
      \<longrightarrow> sorted (map (the \<circ> timestamp_parsed) (sort_logs_by_timestamp ls))) \<and>
   logs (parse_trace_logs_from_directory fs log_files tid)
     = sort_logs_by_timestamp (concat (map (tagged fs tid) log_files))"
  using sorted_keys stable_keys absent_order absent_before_later parsed_sorted all_parsed_sorted
    directory_fields(1)
  by (intro conjI allI impI) blast+

theorem C3_stable_sort_witness:
  "map line_number
     (sort_logs_by_timestamp (logs_acc (parse_loop ''req-42'' worker_lines 0 init_state)))
     = [2, 4, 1, 3] \<and>
   map timestamp_parsed
     (sort_logs_by_timestamp (logs_acc (parse_loop ''req-42'' worker_lines 0 init_state)))
     = [None, None, Some (2024, 1, 1, 10, 0, 2, 0), Some (2024, 1, 1, 10, 0, 3, 0)] \<and>
   datetime_min < (2024, 1, 1, 10, 0, 2, 0) \<and>
   sorted (map parse_timestamp
     (sort_logs_by_timestamp (logs_acc (parse_loop ''req-42'' worker_lines 0 init_state)))) \<and>
   list_all (\<lambda>e. timestamp_parsed e \<noteq> None)
     (logs_acc (parse_loop ''req-42'' scenario_lines 0 init_state)) \<and>
   sorted (map (the \<circ> timestamp_parsed)
     (sort_logs_by_timestamp (logs_acc (parse_loop ''req-42'' scenario_lines 0 init_state))))"
proof -
  let ?w = "logs_acc (parse_loop ''req-42'' worker_lines 0 init_state)"
  let ?s = "logs_acc (parse_loop ''req-42'' scenario_lines 0 init_state)"
  have a: "map line_number (sort_logs_by_timestamp ?w) = [2, 4, 1, 3]"
    by (simp add: worker_sorted)
  have b: "map timestamp_parsed (sort_logs_by_timestamp ?w)
     = [None, None, Some (2024, 1, 1, 10, 0, 2, 0), Some (2024, 1, 1, 10, 0, 3, 0)]"
    by (simp add: worker_sorted timestamp_parsed_def worker_keys)
  have c: "datetime_min < (2024, 1, 1, 10, 0, 2, 0)"
    by (simp add: datetime_min_def)
  have d: "list_all (\<lambda>e. timestamp_parsed e \<noteq> None) ?s"
    by (simp add: scenario_entries timestamp_parsed_def scenario_keys)
  then have d': "\<forall>e\<in>set ?s. timestamp_parsed e \<noteq> None"
    by (simp only: list_all_iff)
  have "sorted (map parse_timestamp (sort_logs_by_timestamp ?w))"
    using C3_stable_sort [of ?w] by blast
  moreover have "sorted (map (the \<circ> timestamp_parsed) (sort_logs_by_timestamp ?s))"
    using C3_stable_sort [of ?s] d' by blast
  ultimately show ?thesis
    using a b c d by blast
qed

text \<open>
  C3 as stated fails where an entry is parsed as the minimum \<open>datetime\<close> itself: in the
  merged list of the source \<open>epoch_lines\<close> the entry of line 1, parsed as
  0001-01-01 00:00:00, stands before the entry of line 2, which has no parsed timestamp.
\<close>

theorem C3_counterexample:
  "length (logs (parse_trace_logs_from_directory epoch_fs [''epoch.log''] ''req-42'')) = 2 \<and>
   timestamp_parsed (logs (parse_trace_logs_from_directory epoch_fs [''epoch.log''] ''req-42'') ! 0)
     = Some (1, 1, 1, 0, 0, 0, 0) \<and>
   timestamp_parsed (logs (parse_trace_logs_from_directory epoch_fs [''epoch.log''] ''req-42'') ! 1)
     = None"
  by (simp add: epoch_logs timestamp_parsed_def epoch_key)

text \<open>
  C4. The continuation lines (starting with a tab, four spaces or \<open>at \<close>) that follow
  a matched line are collected into the stack trace of its entry only when its level is
  ERROR: an entry of another level has an empty stack trace, and an ERROR entry has the
  stripped run of continuation lines that follows its line. After a matched line that is
  no ERROR, the next line is examined on its own: if it matches the identifier (indented
  or not), it is an entry of its own.
\<close>

theorem C4_stack_only_for_errors:
  assumes "fs log_file = Some lines"
  shows "\<forall>e\<in>set (logs (parse_trace_logs fs log_file tid)).
     (level e \<noteq> ERROR \<longrightarrow> stack_trace e = []) \<and>
     (level e = ERROR \<longrightarrow>
        stack_trace e = map strip (takeWhile is_continuation (drop (line_number e) lines))) \<and>
     (level e \<noteq> ERROR \<and> line_number e < length lines
        \<and> matches_trace tid (lines ! line_number e) \<longrightarrow>
        (\<exists>e'\<in>set (logs (parse_trace_logs fs log_file tid)).
           line_number e' = line_number e + 1 \<and> content e' = strip (lines ! line_number e)))"
proof
  fix e
  assume e: "e \<in> set (logs (parse_trace_logs fs log_file tid))"
  let ?ls = "logs (parse_trace_logs fs log_file tid)"
  have ls: "?ls = logs_acc (parse_loop tid lines 0 init_state)"
    using assms by (simp add: parse_trace_logs_def Let_def)
  have at: "entry_at tid lines e"
    using parse_trace_logs_entries [of fs log_file lines tid] assms e by blast
  note ln = entry_at_fields(1) [OF at] and lv = entry_at_fields(5) [OF at]
    and st = entry_at_fields(7) [OF at]
  have a: "level e \<noteq> ERROR \<longrightarrow> stack_trace e = []"
    using lv st by simp
  have b: "level e = ERROR \<longrightarrow>
      stack_trace e = map strip (takeWhile is_continuation (drop (line_number e) lines))"
    using lv st ln by (simp add: stack_of_def)
  have c: "level e \<noteq> ERROR \<and> line_number e < length lines
        \<and> matches_trace tid (lines ! line_number e) \<longrightarrow>
        (\<exists>e'\<in>set ?ls. line_number e' = line_number e + 1
             \<and> content e' = strip (lines ! line_number e))"
  proof
    assume h: "level e \<noteq> ERROR \<and> line_number e < length lines
        \<and> matches_trace tid (lines ! line_number e)"
    with parse_loop_next_line [of tid lines] e ls
    obtain e' where e': "e' \<in> set ?ls" "line_number e' = line_number e + 1"
      by auto
    have "entry_at tid lines e'"
      using parse_trace_logs_entries [of fs log_file lines tid] assms e'(1) by blast
    then have "content e' = strip (lines ! (line_number e' - 1))"
      by (rule entry_at_fields(6))
    with e' show "\<exists>e'\<in>set ?ls. line_number e' = line_number e + 1
             \<and> content e' = strip (lines ! line_number e)"
      by auto
  qed
  from a b c show "(level e \<noteq> ERROR \<longrightarrow> stack_trace e = []) \<and>
     (level e = ERROR \<longrightarrow>
        stack_trace e = map strip (takeWhile is_continuation (drop (line_number e) lines))) \<and>
     (level e \<noteq> ERROR \<and> line_number e < length lines
        \<and> matches_trace tid (lines ! line_number e) \<longrightarrow>
        (\<exists>e'\<in>set ?ls. line_number e' = line_number e + 1
             \<and> content e' = strip (lines ! line_number e)))"
    by blast
qed

theorem C4_stack_only_for_errors_witness:
  "service_fs ''svc/worker.log'' = Some worker_lines \<and>
   is_continuation (worker_lines ! 3) \<and>
   map (\<lambda>e. (line_number e, level e, stack_trace e))
     (logs (parse_trace_logs service_fs ''svc/worker.log'' ''req-42''))
     = [(1, DEBUG, []), (2, UNKNOWN, []), (3, WARN, []), (4, UNKNOWN, [])] \<and>
   (\<exists>e\<in>set (logs (parse_trace_logs service_fs ''svc/worker.log'' ''req-42'')).
      line_number e = 3 + 1 \<and> content e = strip (worker_lines ! 3))"
proof -
  have h: "service_fs ''svc/worker.log'' = Some worker_lines"
    by (simp add: service_fs_def)
  have c: "is_continuation (worker_lines ! 3)"
    by code_simp
  have m: "matches_trace ''req-42'' (worker_lines ! 3)"
    by code_simp
  have n: "(3::nat) < length worker_lines"
    by (simp add: worker_lines_def)
  let ?ls = "logs (parse_trace_logs service_fs ''svc/worker.log'' ''req-42'')"
  let ?e = "\<lparr>line_number = 3, timestamp = ''2024-01-01 10:00:03'', level = WARN,
         content = ''2024-01-01 10:00:03 WARN [req-42] slow call'',
         stack_trace = [], source_file = None\<rparr>"
  have e: "?e \<in> set ?ls"
    by (simp add: worker_logs worker_entries)
  have "level ?e \<noteq> ERROR \<and> line_number ?e < length worker_lines
      \<and> matches_trace ''req-42'' (worker_lines ! line_number ?e)"
    using m n by simp
  moreover have "\<forall>e\<in>set ?ls.
     (level e \<noteq> ERROR \<longrightarrow> stack_trace e = []) \<and>
     (level e = ERROR \<longrightarrow>
        stack_trace e = map strip (takeWhile is_continuation (drop (line_number e) worker_lines))) \<and>
     (level e \<noteq> ERROR \<and> line_number e < length worker_lines
        \<and> matches_trace ''req-42'' (worker_lines ! line_number e) \<longrightarrow>
        (\<exists>e'\<in>set ?ls.
           line_number e' = line_number e + 1 \<and> content e' = strip (worker_lines ! line_number e)))"
    using C4_stack_only_for_errors [of service_fs "''svc/worker.log''" worker_lines "''req-42''"] h
    by blast
  ultimately have "\<exists>e'\<in>set ?ls. line_number e' = line_number ?e + 1
      \<and> content e' = strip (worker_lines ! line_number ?e)"
    using e by blast
  then show ?thesis
    using h c by (simp add: worker_logs worker_entries)
qed

text \<open>
  C5. For two sources \<open>a\<close> and \<open>b\<close>, the merged list has as many entries as the
  two extractions together, every entry as often as the two tagged extractions have it
  (none lost, none duplicated), and every count of the merged result is the sum of the
  counts of the two sources.
\<close>

theorem C5_merge_two:
  "length (logs (parse_trace_logs_from_directory fs [a, b] tid))
     = length (logs (parse_trace_logs fs a tid)) + length (logs (parse_trace_logs fs b tid)) \<and>
   total_logs (parse_trace_logs_from_directory fs [a, b] tid)
     = total_logs (parse_trace_logs fs a tid) + total_logs (parse_trace_logs fs b tid) \<and>
   error_count (parse_trace_logs_from_directory fs [a, b] tid)
     = error_count (parse_trace_logs fs a tid) + error_count (parse_trace_logs fs b tid) \<and>
   warn_count (parse_trace_logs_from_directory fs [a, b] tid)
     = warn_count (parse_trace_logs fs a tid) + warn_count (parse_trace_logs fs b tid) \<and>
   info_count (parse_trace_logs_from_directory fs [a, b] tid)
     = info_count (parse_trace_logs fs a tid) + info_count (parse_trace_logs fs b tid) \<and>
   (\<forall>e. count_list (logs (parse_trace_logs_from_directory fs [a, b] tid)) e
     = count_list (tagged fs tid a) e + count_list (tagged fs tid b) e)"
  by (simp add: directory_fields parse_trace_logs_counts(4) count_list_eq_length_filter
      sort_logs_by_timestamp_def filter_sort)

theorem C5_merge_two_witness:
  "length (logs (parse_trace_logs service_fs ''svc/app.log'' ''req-42'')) = 3 \<and>
   length (logs (parse_trace_logs service_fs ''svc/worker.log'' ''req-42'')) = 4 \<and>
   length (logs (parse_trace_logs_from_directory service_fs
      [''svc/app.log'', ''svc/worker.log''] ''req-42'')) = 7 \<and>
   warn_count (parse_trace_logs service_fs ''svc/app.log'' ''req-42'') = 1 \<and>
   warn_count (parse_trace_logs service_fs ''svc/worker.log'' ''req-42'') = 1 \<and>
   warn_count (parse_trace_logs_from_directory service_fs
      [''svc/app.log'', ''svc/worker.log''] ''req-42'') = 2"
proof -
  have a: "length (logs (parse_trace_logs service_fs ''svc/app.log'' ''req-42'')) = 3"
    by (simp add: app_logs scenario_entries)
  have b: "length (logs (parse_trace_logs service_fs ''svc/worker.log'' ''req-42'')) = 4"
    by (simp add: worker_logs worker_entries)
  have wa: "warn_count (parse_trace_logs service_fs ''svc/app.log'' ''req-42'') = 1"
    by (simp add: parse_trace_logs_counts count_of_def app_logs scenario_entries)
  have wb: "warn_count (parse_trace_logs service_fs ''svc/worker.log'' ''req-42'') = 1"
    by (simp add: parse_trace_logs_counts count_of_def worker_logs worker_entries)
  show ?thesis
    using C5_merge_two [of service_fs "''svc/app.log''" "''svc/worker.log''" "''req-42''"]
      a b wa wb by simp
qed

text \<open>
  C6 (amended). A matched line in which none of the three timestamp patterns is found
  gets the timestamp \<open>Unknown\<close>; an entry whose timestamp is \<open>Unknown\<close> has no parsed
  timestamp; and every entry with no parsed timestamp, be its timestamp \<open>Unknown\<close> or a
  text that no format parses, gets the minimum \<open>datetime\<close> as its sort key, which is
  no later than the key of any entry, so that in the merged list only entries of the
  minimum key stand before it. (A timestamp other than \<open>Unknown\<close> does not imply a
  parsed timestamp.)
\<close>

theorem C6_unparsed_sorts_first:
  "(first_match timestamp_patterns line = None \<longrightarrow> timestamp (new_entry i line) = ''Unknown'') \<and>
   (timestamp e = ''Unknown'' \<longrightarrow> timestamp_parsed e = None) \<and>
   (timestamp_parsed e = None \<longrightarrow>
      parse_timestamp e = datetime_min \<and> (\<forall>e'. parse_timestamp e \<le> parse_timestamp e')) \<and>
   (\<forall>m n. m \<le> n \<and> n < length ls \<and> timestamp_parsed (sort_logs_by_timestamp ls ! n) = None
      \<longrightarrow> parse_timestamp (sort_logs_by_timestamp ls ! m) = datetime_min)"
proof -
  have a: "first_match timestamp_patterns line = None
      \<longrightarrow> timestamp (new_entry i line) = ''Unknown''"
    by (simp add: extract_timestamp_def)
  have b: "timestamp e = ''Unknown'' \<longrightarrow> timestamp_parsed e = None"
    by (simp add: timestamp_parsed_def)
  have c: "timestamp_parsed e = None \<longrightarrow>
      parse_timestamp e = datetime_min \<and> (\<forall>e'. parse_timestamp e \<le> parse_timestamp e')"
    using parse_timestamp_ge_min by (simp add: absent_key)
  have d: "parse_timestamp (sort_logs_by_timestamp ls ! m) = datetime_min"
    if "m \<le> n" "n < length ls" "timestamp_parsed (sort_logs_by_timestamp ls ! n) = None"
    for m n
  proof -
    from that(1,2) have "map parse_timestamp (sort_logs_by_timestamp ls) ! m
        \<le> map parse_timestamp (sort_logs_by_timestamp ls) ! n"
      using sorted_keys [of ls] by (intro sorted_nth_mono) simp_all
    with that have "parse_timestamp (sort_logs_by_timestamp ls ! m) \<le> datetime_min"
      by (simp add: absent_key)
    with parse_timestamp_ge_min [of "sort_logs_by_timestamp ls ! m"] show ?thesis
      by simp
  qed
  from a b c d show ?thesis by blast
qed

theorem C6_unparsed_sorts_first_witness:
  "first_match timestamp_patterns (worker_lines ! 1) = None \<and>
   timestamp (new_entry 1 (worker_lines ! 1)) = ''Unknown'' \<and>
   timestamp_parsed (new_entry 1 (worker_lines ! 1)) = None \<and>
   parse_timestamp (new_entry 1 (worker_lines ! 1)) = datetime_min \<and>
   timestamp_parsed (new_entry 0 thirteen_line) = None \<and>
   parse_timestamp (new_entry 0 thirteen_line) = datetime_min \<and>
   timestamp_parsed (sort_logs_by_timestamp
     (logs_acc (parse_loop ''req-42'' worker_lines 0 init_state)) ! 1) = None \<and>
   parse_timestamp (sort_logs_by_timestamp
     (logs_acc (parse_loop ''req-42'' worker_lines 0 init_state)) ! 0) = datetime_min"
proof -
  let ?w = "logs_acc (parse_loop ''req-42'' worker_lines 0 init_state)"
  have a: "first_match timestamp_patterns (worker_lines ! 1) = None"
    by code_simp
  have t: "timestamp_parsed (new_entry 0 thirteen_line) = None"
    by (simp add: thirteen_entry timestamp_parsed_def thirteen_key)
  have n: "timestamp_parsed (sort_logs_by_timestamp ?w ! 1) = None"
    by (simp add: worker_sorted timestamp_parsed_def)
  have l: "(0::nat) \<le> 1 \<and> 1 < length ?w"
    by (simp add: worker_entries)
  note c6 = C6_unparsed_sorts_first [where line = "worker_lines ! 1" and i = 1 and ls = ?w]
  have u: "timestamp (new_entry 1 (worker_lines ! 1)) = ''Unknown''"
    using c6 [of "new_entry 0 thirteen_line"] a by blast
  have p: "timestamp_parsed (new_entry 1 (worker_lines ! 1)) = None"
    using c6 [of "new_entry 1 (worker_lines ! 1)"] u by blast
  have k1: "parse_timestamp (new_entry 1 (worker_lines ! 1)) = datetime_min"
    using c6 [of "new_entry 1 (worker_lines ! 1)"] p by blast
  have k2: "parse_timestamp (new_entry 0 thirteen_line) = datetime_min"
    using c6 [of "new_entry 0 thirteen_line"] t by blast
  have k3: "parse_timestamp (sort_logs_by_timestamp ?w ! 0) = datetime_min"
    using c6 [of "new_entry 0 thirteen_line"] n l by blast
  from a u p k1 t k2 n k3 show ?thesis by blast
qed

text \<open>
  C6 as stated fails on the line of \<open>thirteen_line\<close>: the first pattern finds
  \<open>2024-13-01 10:00:00\<close>, so the timestamp is not \<open>Unknown\<close>, and no format parses a
  month 13, so there is no parsed timestamp.
\<close>

theorem C6_counterexample:
  "matches_trace ''req-42'' thirteen_line \<and>
   timestamp (new_entry 0 thirteen_line) = ''2024-13-01 10:00:00'' \<and>
   timestamp (new_entry 0 thirteen_line) \<noteq> ''Unknown'' \<and>
   timestamp_parsed (new_entry 0 thirteen_line) = None"
proof -
  have "matches_trace ''req-42'' thirteen_line"
    by code_simp
  then show ?thesis
    by (simp add: thirteen_entry timestamp_parsed_def thirteen_key)
qed

text \<open>
  C7. If reading a source fails, its extraction is the empty result with zero counts, and
  in a directory scan the other sources are extracted as if the failed source were not
  listed: the entries, the contributing sources and the counts are those of the scan
  without it.
\<close>

theorem C7_read_failure:
  assumes "fs log_file = None"
  shows "parse_trace_logs fs log_file tid =
      \<lparr> trace_id = tid, file_desc = FilePath log_file, source_files = None, total_logs = 0,
        error_count = 0, warn_count = 0, info_count = 0, logs = [] \<rparr> \<and>
    logs (parse_trace_logs_from_directory fs (before @ log_file # after) tid)
      = logs (parse_trace_logs_from_directory fs (before @ after) tid) \<and>
    source_files (parse_trace_logs_from_directory fs (before @ log_file # after) tid)
      = source_files (parse_trace_logs_from_directory fs (before @ after) tid) \<and>
    total_logs (parse_trace_logs_from_directory fs (before @ log_file # after) tid)
      = total_logs (parse_trace_logs_from_directory fs (before @ after) tid) \<and>
    error_count (parse_trace_logs_from_directory fs (before @ log_file # after) tid)
      = error_count (parse_trace_logs_from_directory fs (before @ after) tid) \<and>
    warn_count (parse_trace_logs_from_directory fs (before @ log_file # after) tid)
      = warn_count (parse_trace_logs_from_directory fs (before @ after) tid) \<and>
    info_count (parse_trace_logs_from_directory fs (before @ log_file # after) tid)
      = info_count (parse_trace_logs_from_directory fs (before @ after) tid)"
proof -
  have r: "parse_trace_logs fs log_file tid =
      \<lparr> trace_id = tid, file_desc = FilePath log_file, source_files = None, total_logs = 0,
        error_count = 0, warn_count = 0, info_count = 0, logs = [] \<rparr>"
    using assms by (simp add: parse_trace_logs_def)
  then have "tagged fs tid log_file = []"
    by (simp add: tagged_def)
  with r show ?thesis
    by (simp add: directory_fields)
qed

theorem C7_read_failure_witness:
  "service_fs ''svc/gone.log'' = None \<and>
   logs (parse_trace_logs service_fs ''svc/gone.log'' ''req-42'') = [] \<and>
   total_logs (parse_trace_logs service_fs ''svc/gone.log'' ''req-42'') = 0 \<and>
   logs (parse_trace_logs_from_directory service_fs
      [''svc/app.log'', ''svc/gone.log'', ''svc/worker.log''] ''req-42'')
     = logs (parse_trace_logs_from_directory service_fs
      [''svc/app.log'', ''svc/worker.log''] ''req-42'') \<and>
   source_files (parse_trace_logs_from_directory service_fs
      [''svc/app.log'', ''svc/gone.log'', ''svc/worker.log''] ''req-42'')
     = Some [''svc/app.log'', ''svc/worker.log'']"
proof -
  have h: "service_fs ''svc/gone.log'' = None"
    by (simp add: service_fs_def)
  have s: "source_files (parse_trace_logs_from_directory service_fs
      [''svc/app.log'', ''svc/worker.log''] ''req-42'')
     = Some [''svc/app.log'', ''svc/worker.log'']"
    by (simp add: directory_fields app_logs scenario_entries worker_logs worker_entries)
  show ?thesis
    using C7_read_failure [of service_fs "''svc/gone.log''" "''req-42''"
        "[''svc/app.log'']" "[''svc/worker.log'']"] h s
    by simp
qed

text \<open>
  C8. The entries that the extraction of one source returns have strictly increasing
  line numbers, also across ERROR entries whose continuation lines were consumed.
\<close>

theorem C8_line_numbers_increase:
  "sorted_wrt (<) (map line_number (logs (parse_trace_logs fs log_file tid)))"
  by (cases "fs log_file") (simp_all add: parse_trace_logs_def Let_def parse_loop_sorted)

theorem C8_line_numbers_increase_witness:
  "map line_number (logs (parse_trace_logs scenario_fs ''logs/app.log'' ''req-42'')) = [1, 2, 4] \<and>
   sorted_wrt (<) (map line_number (logs (parse_trace_logs scenario_fs ''logs/app.log'' ''req-42'')))"
proof -
  have "logs (parse_trace_logs scenario_fs ''logs/app.log'' ''req-42'')
      = logs_acc (parse_loop ''req-42'' scenario_lines 0 init_state)"
    by (simp add: parse_trace_logs_def scenario_fs_def Let_def)
  then have "map line_number (logs (parse_trace_logs scenario_fs ''logs/app.log'' ''req-42''))
      = [1, 2, 4]"
    by (simp add: scenario_entries)
  then show ?thesis
    using C8_line_numbers_increase [of scenario_fs "''logs/app.log''" "''req-42''"] by simp
qed

text \<open>
  C9. Level detection is case-sensitive although the identifier is matched without regard
  to case: the level of a matched line is ERROR, WARN, INFO or DEBUG exactly when the line
  contains that upper-case keyword and none of the keywords before it in this order, and
  UNKNOWN when it contains none of the four; a line with \<open>error\<close> in lower case only
  is UNKNOWN.
\<close>

theorem C9_level_case_sensitive:
  "(extract_log_level line = ERROR \<longleftrightarrow> contains line ''ERROR'') \<and>
   (extract_log_level line = WARN \<longleftrightarrow> \<not> contains line ''ERROR'' \<and> contains line ''WARN'') \<and>
   (extract_log_level line = INFO \<longleftrightarrow>
      \<not> contains line ''ERROR'' \<and> \<not> contains line ''WARN'' \<and> contains line ''INFO'') \<and>
   (extract_log_level line = DEBUG \<longleftrightarrow>
      \<not> contains line ''ERROR'' \<and> \<not> contains line ''WARN'' \<and> \<not> contains line ''INFO''
      \<and> contains line ''DEBUG'') \<and>
   (extract_log_level line = UNKNOWN \<longleftrightarrow>
      \<not> contains line ''ERROR'' \<and> \<not> contains line ''WARN'' \<and> \<not> contains line ''INFO''
      \<and> \<not> contains line ''DEBUG'') \<and>
   level (new_entry i line) = extract_log_level line \<and>
   (fs log_file = Some lines \<longrightarrow>
      (\<forall>e\<in>set (logs (parse_trace_logs fs log_file tid)).
         matches_trace tid (lines ! (line_number e - 1)) \<and>
         level e = extract_log_level (lines ! (line_number e - 1))))"
proof -
  have "fs log_file = Some lines \<longrightarrow>
      (\<forall>e\<in>set (logs (parse_trace_logs fs log_file tid)).
         matches_trace tid (lines ! (line_number e - 1)) \<and>
         level e = extract_log_level (lines ! (line_number e - 1)))"
  proof (intro impI ballI)
    fix e
    assume "fs log_file = Some lines" and "e \<in> set (logs (parse_trace_logs fs log_file tid))"
    then have "entry_at tid lines e"
      using parse_trace_logs_entries [of fs log_file lines tid] by blast
    then show "matches_trace tid (lines ! (line_number e - 1)) \<and>
         level e = extract_log_level (lines ! (line_number e - 1))"
      using entry_at_fields(3) entry_at_fields(5) by blast
  qed
  then show ?thesis
    by (simp add: extract_log_level_def)
qed

theorem C9_level_case_sensitive_witness:
  "matches_trace ''req-42'' (''error [REQ-42] lowercase level'' @ [CHR 0x0A]) \<and>
   contains_ci (''error [REQ-42] lowercase level'' @ [CHR 0x0A]) ''ERROR'' \<and>
   \<not> contains (''error [REQ-42] lowercase level'' @ [CHR 0x0A]) ''ERROR'' \<and>
   extract_log_level (''error [REQ-42] lowercase level'' @ [CHR 0x0A]) = UNKNOWN \<and>
   service_fs ''svc/worker.log'' = Some worker_lines \<and>
   map level (logs (parse_trace_logs service_fs ''svc/worker.log'' ''req-42''))
     = [DEBUG, UNKNOWN, WARN, UNKNOWN]"
proof -
  have m: "matches_trace ''req-42'' (''error [REQ-42] lowercase level'' @ [CHR 0x0A])"
    by code_simp
  have ci: "contains_ci (''error [REQ-42] lowercase level'' @ [CHR 0x0A]) ''ERROR''"
    by code_simp
  have n: "\<not> contains (''error [REQ-42] lowercase level'' @ [CHR 0x0A]) ''ERROR''"
      "\<not> contains (''error [REQ-42] lowercase level'' @ [CHR 0x0A]) ''WARN''"
      "\<not> contains (''error [REQ-42] lowercase level'' @ [CHR 0x0A]) ''INFO''"
      "\<not> contains (''error [REQ-42] lowercase level'' @ [CHR 0x0A]) ''DEBUG''"
    by code_simp+
  have h: "service_fs ''svc/worker.log'' = Some worker_lines"
    by (simp add: service_fs_def)
  have l: "map level (logs (parse_trace_logs service_fs ''svc/worker.log'' ''req-42''))
     = [DEBUG, UNKNOWN, WARN, UNKNOWN]"
    by (simp add: worker_logs worker_entries)
  show ?thesis
    using C9_level_case_sensitive [where line = "''error [REQ-42] lowercase level'' @ [CHR 0x0A]"
        and fs = service_fs and log_file = "''svc/worker.log''" and lines = worker_lines
        and tid = "''req-42''" and i = 1] m ci n h l
    by simp
qed

text \<open>
  C10. In the result of the extraction of one source and in the result of the directory
  scan, \<open>error_count\<close>, \<open>warn_count\<close> and \<open>info_count\<close> are the numbers of
  entries of level ERROR, WARN and INFO, and \<open>total_logs\<close> is the number of entries;
  DEBUG and UNKNOWN entries are in \<open>logs\<close> and in no count.
\<close>

theorem C10_counts_agree:
  "counts_agree (parse_trace_logs fs log_file tid) \<and>
   counts_agree (parse_trace_logs_from_directory fs log_files tid)"
  by (simp add: counts_agree_def parse_trace_logs_counts directory_counts directory_fields(6)
      count_of_def)

theorem C10_counts_agree_witness:
  "counts_agree (parse_trace_logs service_fs ''svc/worker.log'' ''req-42'') \<and>
   counts_agree (parse_trace_logs_from_directory service_fs
      [''svc/app.log'', ''svc/worker.log''] ''req-42'') \<and>
   map level (logs (parse_trace_logs service_fs ''svc/worker.log'' ''req-42''))
     = [DEBUG, UNKNOWN, WARN, UNKNOWN] \<and>
   error_count (parse_trace_logs service_fs ''svc/worker.log'' ''req-42'') = 0 \<and>
   warn_count (parse_trace_logs service_fs ''svc/worker.log'' ''req-42'') = 1 \<and>
   info_count (parse_trace_logs service_fs ''svc/worker.log'' ''req-42'') = 0 \<and>
   total_logs (parse_trace_logs service_fs ''svc/worker.log'' ''req-42'') = 4"
proof -
  have l: "map level (logs (parse_trace_logs service_fs ''svc/worker.log'' ''req-42''))
     = [DEBUG, UNKNOWN, WARN, UNKNOWN]"
    by (simp add: worker_logs worker_entries)
  have f: "filter (\<lambda>e. level e = l) (logs (parse_trace_logs service_fs ''svc/worker.log'' ''req-42''))
    = filter (\<lambda>e. level e = l) (logs_acc (parse_loop ''req-42'' worker_lines 0 init_state))" for l
    by (simp add: worker_logs)
  show ?thesis
    using C10_counts_agree [of service_fs "''svc/worker.log''" "''req-42''"
        "[''svc/app.log'', ''svc/worker.log'']"] l
    by (simp add: counts_agree_def f worker_entries) (simp add: worker_logs worker_entries)
qed

end
